theory Spec2Isabelle
  imports Main "HOL-Library.Word" "HOL-Library.AList" "HOL-Library.Signed_Division"
begin

section \<open>Task data model (task.h, task.cpp)\<close>

text \<open>
  The enumerations and the two structures of \<^verbatim>\<open>task.h\<close>. The private members
  \<^verbatim>\<open>id_\<close>, \<^verbatim>\<open>title_\<close>, ... of class \<^verbatim>\<open>Task\<close> are the record fields below (the
  member \<^verbatim>\<open>id_\<close> is the field \<open>task_id\<close>); the creation time is an abstract
  number of clock ticks. The member \<^verbatim>\<open>input\<close> is a C++ \<^verbatim>\<open>int\<close>; the functions
  below compare it and compute on digits and carries far below \<open>2 ^ 31\<close>, so
  it is an \<open>int\<close> here, with the truncating \<open>sdiv\<close> and \<open>smod\<close> for the C++
  operators \<^verbatim>\<open>/\<close> and \<^verbatim>\<open>%\<close>.
\<close>

datatype Priority = LOW | MEDIUM | HIGH

datatype TaskStatus = PENDING | PROCESSING | COMPLETED | FAILED

record TaskData =
  type :: string
  input :: int
  operation :: string

record Task =
  task_id :: string
  title :: string
  priority :: Priority
  created_at :: nat
  data :: TaskData
  status :: TaskStatus
  result :: string
  error_message :: string

text \<open>The exceptions the code throws, with their messages, and \<^verbatim>\<open>e.what()\<close>.\<close>

datatype error = invalid_argument string | runtime_error string | length_error string

definition what :: "error \<Rightarrow> string" where
  "what e = (case e of invalid_argument m \<Rightarrow> m | runtime_error m \<Rightarrow> m | length_error m \<Rightarrow> m)"

text \<open>The constructor \<^verbatim>\<open>Task::Task(id, title, priority, data)\<close>; the last argument
  is the reading of the system clock.\<close>

definition new_Task :: "string \<Rightarrow> string \<Rightarrow> Priority \<Rightarrow> TaskData \<Rightarrow> nat \<Rightarrow> Task" where
  "new_Task i ti p d now =
     \<lparr>task_id = i, title = ti, priority = p, created_at = now, data = d,
      status = PENDING, result = [], error_message = []\<rparr>"

text \<open>\<^verbatim>\<open>Task::isValid\<close>: a chain of early returns, kept in the source's order.\<close>

definition isValid :: "Task \<Rightarrow> bool" where
  "isValid t =
     (if task_id t = [] \<or> title t = [] then False
      else if type (data t) \<noteq> ''calculation'' then False
      else if operation (data t) \<noteq> ''factorial'' \<and>
              operation (data t) \<noteq> ''fibonacci'' \<and>
              operation (data t) \<noteq> ''prime_check'' then False
      else if input (data t) < 0 \<or> input (data t) > 100000 then False
      else if operation (data t) = ''factorial'' \<and> input (data t) > 20 then False
      else if operation (data t) = ''fibonacci'' \<and> input (data t) > 1000 then False
      else if operation (data t) = ''prime_check'' \<and> input (data t) < 2 then False
      else True)"

definition taskStatusToString :: "TaskStatus \<Rightarrow> string" where
  "taskStatusToString s =
     (case s of PENDING \<Rightarrow> ''pending'' | PROCESSING \<Rightarrow> ''processing''
      | COMPLETED \<Rightarrow> ''completed'' | FAILED \<Rightarrow> ''failed'')"

definition stringToTaskStatus :: "string \<Rightarrow> TaskStatus" where
  "stringToTaskStatus s =
     (if s = ''pending'' then PENDING
      else if s = ''processing'' then PROCESSING
      else if s = ''completed'' then COMPLETED
      else if s = ''failed'' then FAILED
      else PENDING)"

section \<open>Calculations (calculations.cpp)\<close>

text \<open>
  \<open>decimal n\<close> is the decimal numeral of a natural number, most significant
  digit first, and \<open>to_string\<close> is \<^verbatim>\<open>std::to_string\<close> on an \<^verbatim>\<open>int\<close>.
\<close>

definition digit_char :: "nat \<Rightarrow> char" where
  "digit_char d = char_of (48 + d)"

fun decimal :: "nat \<Rightarrow> string" where
  "decimal n = (if n < 10 then [digit_char n] else decimal (n div 10) @ [digit_char (n mod 10)])"

declare decimal.simps [simp del]

definition to_string :: "int \<Rightarrow> string" where
  "to_string i = (if i < 0 then CHR ''-'' # decimal (nat (- i)) else decimal (nat i))"

text \<open>
  \<^verbatim>\<open>factorial\<close> keeps the number as a vector of decimal digits, least significant
  first. \<open>mul_digits\<close> is the inner \<^verbatim>\<open>for\<close> loop over the vector (it returns the
  new digits and the carry left over), \<open>push_carry\<close> the \<^verbatim>\<open>while (carry)\<close> loop
  that appends the carry's digits, and \<open>fact_loop\<close> the outer loop over
  \<^verbatim>\<open>i = 2 .. n\<close>.
\<close>

fun mul_digits :: "int \<Rightarrow> int list \<Rightarrow> int \<Rightarrow> int list \<times> int" where
  "mul_digits i [] carry = ([], carry)"
| "mul_digits i (d # ds) carry =
     (let prod = d * i + carry;
          (ds', carry') = mul_digits i ds (prod sdiv 10)
      in ((prod smod 10) # ds', carry'))"

function push_carry :: "int list \<Rightarrow> int \<Rightarrow> int list" where
  "push_carry res carry =
     (if carry \<noteq> 0 then push_carry (res @ [carry smod 10]) (carry sdiv 10) else res)"
  by pat_completeness auto
termination
proof (relation "measure (\<lambda>(res, carry). nat \<bar>carry\<bar>)")
  show "wf (measure (\<lambda>(res, carry). nat \<bar>carry\<bar>))" by simp
next
  fix res :: "int list" and carry :: int
  assume "carry \<noteq> 0"
  then have "\<bar>carry sdiv 10\<bar> < \<bar>carry\<bar>"
    by (simp add: signed_divide_int_def abs_mult abs_sgn_eq)
  then show "((res @ [carry smod 10], carry sdiv 10), (res, carry))
               \<in> measure (\<lambda>(res, carry). nat \<bar>carry\<bar>)"
    by simp
qed

declare push_carry.simps [simp del]

function fact_loop :: "int \<Rightarrow> int \<Rightarrow> int list \<Rightarrow> int list" where
  "fact_loop i n res =
     (if i \<le> n then
        (let (res', carry) = mul_digits i res 0
         in fact_loop (i + 1) n (push_carry res' carry))
      else res)"
  by pat_completeness auto
termination
  by (relation "measure (\<lambda>(i, n, res). nat (n + 1 - i))") auto

declare fact_loop.simps [simp del]

definition factorial :: "int \<Rightarrow> error + string" where
  "factorial n =
     (if n < 0 then Inl (invalid_argument ''Factorial is not defined for negative numbers'')
      else if n = 0 \<or> n = 1 then Inr ''1''
      else Inr (concat (map to_string (rev (fact_loop 2 n [1])))))"

text \<open>
  \<^verbatim>\<open>addStrings\<close>: \<open>add_loop\<close> is its \<^verbatim>\<open>while\<close> loop, with the two cursors \<open>i\<close> and
  \<open>j\<close> running down from the last characters, the carry, and the result
  built by prepending. \<^verbatim>\<open>num1[i] - '0'\<close> is the character code minus 48.
\<close>

function add_loop :: "string \<Rightarrow> string \<Rightarrow> int \<Rightarrow> int \<Rightarrow> int \<Rightarrow> string \<Rightarrow> string" where
  "add_loop num1 num2 i j carry res =
     (if i \<ge> 0 \<or> j \<ge> 0 \<or> carry \<noteq> 0 then
        (let digit1 = (if i \<ge> 0 then int (of_char (num1 ! nat i)) - 48 else 0);
             digit2 = (if j \<ge> 0 then int (of_char (num2 ! nat j)) - 48 else 0);
             sum = digit1 + digit2 + carry
         in add_loop num1 num2 (i - 1) (j - 1) (sum sdiv 10) (to_string (sum smod 10) @ res))
      else res)"
  by pat_completeness auto
termination
proof (relation "measures [\<lambda>(num1, num2, i, j, carry, res). nat (max i j + 1),
                           \<lambda>(num1, num2, i, j, carry, res). nat \<bar>carry\<bar>]", goal_cases)
  case 1
  show ?case by simp
next
  case (2 num1 num2 i j carry res digit1 digit2 sum)
  show ?case
  proof (cases "0 \<le> i \<or> 0 \<le> j")
    case True
    then show ?thesis by auto
  next
    case False
    then have c: "carry \<noteq> 0" and s: "sum = carry" using 2 by auto
    have "\<bar>carry sdiv 10\<bar> < \<bar>carry\<bar>"
      using c by (simp add: signed_divide_int_def abs_mult abs_sgn_eq)
    then show ?thesis using False s by auto
  qed
qed

declare add_loop.simps [simp del]

definition addStrings :: "string \<Rightarrow> string \<Rightarrow> string" where
  "addStrings num1 num2 =
     add_loop num1 num2 (int (length num1) - 1) (int (length num2) - 1) 0 []"

function fib_loop :: "int \<Rightarrow> int \<Rightarrow> string \<Rightarrow> string \<Rightarrow> string" where
  "fib_loop i n prev cur =
     (if i \<le> n then fib_loop (i + 1) n cur (addStrings prev cur) else cur)"
  by pat_completeness auto
termination
  by (relation "measure (\<lambda>(i, n, prev, cur). nat (n + 1 - i))") auto

declare fib_loop.simps [simp del]

definition fibonacci :: "int \<Rightarrow> error + string" where
  "fibonacci n =
     (if n < 0 then Inl (invalid_argument ''Fibonacci is not defined for negative numbers'')
      else if n = 0 then Inr ''0''
      else if n = 1 then Inr ''1''
      else Inr (fib_loop 2 n ''0'' ''1''))"

text \<open>
  \<^verbatim>\<open>prime_check\<close> bounds its trial divisions by
  \<^verbatim>\<open>static_cast<int>(std::sqrt(n))\<close>. For an \<^verbatim>\<open>int\<close> \<open>n \<ge> 0\<close> the conversion to
  \<^verbatim>\<open>double\<close> is exact and the correctly rounded square root, truncated, is
  the integer square root; \<open>isqrt\<close> computes that integer by search.
\<close>

function isqrt_from :: "nat \<Rightarrow> nat \<Rightarrow> nat" where
  "isqrt_from n k = (if (k + 1) * (k + 1) \<le> n then isqrt_from n (k + 1) else k)"
  by pat_completeness auto
termination
proof (relation "measure (\<lambda>(n, k). n - k)", goal_cases)
  case 1
  show ?case by simp
next
  case (2 n k)
  have "k + 1 \<le> (k + 1) * (k + 1)" by simp
  then have "k < n" using 2 by linarith
  then show ?case by simp
qed

declare isqrt_from.simps [simp del]

definition isqrt :: "int \<Rightarrow> int" where
  "isqrt n = int (isqrt_from (nat n) 0)"

function prime_loop :: "int \<Rightarrow> int \<Rightarrow> int \<Rightarrow> string" where
  "prime_loop n i limit =
     (if i \<le> limit then
        (if n smod i = 0 then ''false'' else prime_loop n (i + 2) limit)
      else ''true'')"
  by pat_completeness auto
termination
  by (relation "measure (\<lambda>(n, i, limit). nat (limit + 1 - i))") auto

declare prime_loop.simps [simp del]

definition prime_check :: "int \<Rightarrow> error + string" where
  "prime_check n =
     (if n < 2 then Inl (invalid_argument ''Prime check requires number >= 2'')
      else if n = 2 then Inr ''true''
      else if n smod 2 = 0 then Inr ''false''
      else Inr (prime_loop n 3 (isqrt n)))"

definition validate_calculation_input :: "string \<Rightarrow> int \<Rightarrow> bool" where
  "validate_calculation_input op n =
     (if op = ''factorial'' then n \<ge> 0
      else if op = ''fibonacci'' then n \<ge> 0
      else if op = ''prime_check'' then n \<ge> 2
      else False)"

definition execute_calculation :: "string \<Rightarrow> int \<Rightarrow> error + string" where
  "execute_calculation op n =
     (if \<not> validate_calculation_input op n then
        Inl (invalid_argument ''Invalid operation or input'')
      else if op = ''factorial'' then factorial n
      else if op = ''fibonacci'' then fibonacci n
      else if op = ''prime_check'' then prime_check n
      else Inl (invalid_argument (''Unknown operation: '' @ op)))"

text \<open>
  What the contracts of the three calculations speak of: the Fibonacci
  numbers counted from \<open>fib 0 = 0\<close>, and primality by the absence of a
  divisor strictly between 1 and \<open>n\<close>. (The factorial is \<open>fact\<close> of Main.)
\<close>

fun fib :: "nat \<Rightarrow> nat" where
  "fib 0 = 0"
| "fib (Suc 0) = 1"
| "fib (Suc (Suc n)) = fib n + fib (Suc n)"

definition is_prime :: "int \<Rightarrow> bool" where
  "is_prime n \<longleftrightarrow> 1 < n \<and> (\<forall>d\<in>{2..<n}. \<not> d dvd n)"

text \<open>
  For the proofs: the value of a little-endian digit vector and of a digit
  string, and the vectors and strings without a leading zero.
\<close>

fun val_le :: "int list \<Rightarrow> int" where
  "val_le [] = 0"
| "val_le (d # ds) = d + 10 * val_le ds"

definition canon :: "int list \<Rightarrow> bool" where
  "canon ds \<longleftrightarrow> ds \<noteq> [] \<and> (\<forall>d\<in>set ds. 0 \<le> d \<and> d \<le> 9) \<and> last ds \<noteq> 0"

definition dig :: "char \<Rightarrow> nat" where
  "dig c = of_char c - 48"

definition dval :: "string \<Rightarrow> nat" where
  "dval s = foldl (\<lambda>acc c. 10 * acc + dig c) 0 s"

definition cstr :: "string \<Rightarrow> bool" where
  "cstr s \<longleftrightarrow> s \<noteq> [] \<and> (\<forall>c\<in>set s. 48 \<le> (of_char c :: nat) \<and> (of_char c :: nat) \<le> 57) \<and>
     (hd s = CHR ''0'' \<longrightarrow> length s = 1)"

section \<open>Worker (worker.h, worker.cpp)\<close>

text \<open>
  The three atomic 64-bit counters of \<^verbatim>\<open>WorkerStats\<close> are words, so that an
  increment wraps as \<^verbatim>\<open>std::atomic<uint64_t>\<close> does. The worker's FIFO queue is a
  list with its head at the front; the \<^verbatim>\<open>unordered_map\<close> from task id to task
  is an association list, read with \<open>map_of\<close> and written with
  \<open>AList.update\<close> (which overwrites an existing key in place and appends a new
  one, so keys stay distinct). Start times, the running flag and the HTTP
  server are left out.
\<close>

record WorkerStats =
  tasks_processed :: "64 word"
  tasks_completed :: "64 word"
  tasks_failed :: "64 word"

record Worker =
  worker_id :: int
  thread_count :: int
  task_queue :: "Task list"
  task_storage :: "(string \<times> Task) list"
  stats :: WorkerStats

definition new_Worker :: "int \<Rightarrow> int \<Rightarrow> Worker" where
  "new_Worker wid n =
     \<lparr>worker_id = wid, thread_count = n, task_queue = [], task_storage = [],
      stats = \<lparr>tasks_processed = 0, tasks_completed = 0, tasks_failed = 0\<rparr>\<rparr>"

definition addTask :: "Task \<Rightarrow> Worker \<Rightarrow> Worker" where
  "addTask task w =
     w\<lparr>task_queue := task_queue w @ [task],
       task_storage := AList.update (task_id task) task (task_storage w)\<rparr>"

definition getTask :: "string \<Rightarrow> Worker \<Rightarrow> Task option" where
  "getTask k w = map_of (task_storage w) k"

text \<open>\<^verbatim>\<open>Worker::completeTask\<close> returns its boolean together with the worker after
  the call.\<close>

definition completeTask :: "string \<Rightarrow> Worker \<Rightarrow> bool \<times> Worker" where
  "completeTask k w =
     (case map_of (task_storage w) k of
        None \<Rightarrow> (False, w)
      | Some task \<Rightarrow>
          if status task = PROCESSING \<and> result task \<noteq> [] then
            (True,
             w\<lparr>task_storage := AList.update k (task\<lparr>status := COMPLETED\<rparr>) (task_storage w),
               stats := (stats w)\<lparr>tasks_completed := tasks_completed (stats w) + 1\<rparr>\<rparr>)
          else if status task = PROCESSING \<and> result task = [] then
            (if error_message task \<noteq> [] then
               (False,
                w\<lparr>task_storage := AList.update k (task\<lparr>status := FAILED\<rparr>) (task_storage w)\<rparr>)
             else (False, w))
          else (False, w))"

text \<open>
  \<^verbatim>\<open>Worker::processTask\<close> in its two parts. \<open>markProcessing\<close> is the beginning
  of the \<^verbatim>\<open>try\<close> block: the status of the thread's copy of the task becomes
  PROCESSING and the copy is written to the storage under the storage lock;
  it returns the copy and the worker. \<open>finishProcessing\<close> is the rest: the
  calculation, then either the result is set, the copy stored again and the
  processed counter incremented, or, in the \<^verbatim>\<open>catch\<close> block, the error
  message and the status FAILED are set, the copy stored and the failed and
  processed counters incremented. Between the two parts other threads can
  read and write the storage.
\<close>

definition markProcessing :: "Task \<Rightarrow> Worker \<Rightarrow> Task \<times> Worker" where
  "markProcessing task w =
     (let task1 = task\<lparr>status := PROCESSING\<rparr>
      in (task1, w\<lparr>task_storage := AList.update (task_id task1) task1 (task_storage w)\<rparr>))"

definition finishProcessing :: "Task \<Rightarrow> Worker \<Rightarrow> Worker" where
  "finishProcessing task w =
     (case execute_calculation (operation (data task)) (input (data task)) of
        Inr res \<Rightarrow>
          (let task2 = task\<lparr>result := res\<rparr>
           in w\<lparr>task_storage := AList.update (task_id task2) task2 (task_storage w),
                stats := (stats w)\<lparr>tasks_processed := tasks_processed (stats w) + 1\<rparr>\<rparr>)
      | Inl e \<Rightarrow>
          (let task2 = task\<lparr>error_message := what e, status := FAILED\<rparr>
           in w\<lparr>task_storage := AList.update (task_id task2) task2 (task_storage w),
                stats := (stats w)\<lparr>tasks_failed := tasks_failed (stats w) + 1,
                                   tasks_processed := tasks_processed (stats w) + 1\<rparr>\<rparr>))"

definition processTask :: "Task \<Rightarrow> Worker \<Rightarrow> Worker" where
  "processTask task w = (let (task1, w1) = markProcessing task w in finishProcessing task1 w1)"

text \<open>One round of \<^verbatim>\<open>Worker::processTaskLoop\<close> run by a single thread with a
  non-empty queue: the head is popped and processed.\<close>

definition processTaskLoop :: "Worker \<Rightarrow> Worker" where
  "processTaskLoop w =
     (case task_queue w of
        [] \<Rightarrow> w
      | task # q \<Rightarrow> processTask task (w\<lparr>task_queue := q\<rparr>))"

section \<open>Orchestrator (orchestrator.h, orchestrator.cpp)\<close>

text \<open>
  The round-robin counter \<^verbatim>\<open>std::atomic<size_t> current_worker_\<close> is a 64-bit
  word: \<^verbatim>\<open>fetch_add(1)\<close> returns the old value and wraps at \<open>2 ^ 64\<close>. A
  function that can throw returns its outcome together with the
  orchestrator after the call, so that what a failed call leaves behind is
  part of the model.
\<close>

record SystemStats =
  total_tasks_processed :: "64 word"
  total_tasks_completed :: "64 word"
  total_tasks_failed :: "64 word"
  total_workers :: "64 word"

record OrchestratorConfig =
  num_workers :: int
  threads_per_worker :: int
  orchestrator_port :: int

record TaskOrchestrator =
  config :: OrchestratorConfig
  workers :: "Worker list"
  current_worker :: "64 word"
  system_stats :: SystemStats

text \<open>The constructor. \<^verbatim>\<open>workers_.reserve\<close> throws on a negative count, which
  the conversion to \<^verbatim>\<open>size_t\<close> makes huge.\<close>

definition new_TaskOrchestrator :: "OrchestratorConfig \<Rightarrow> error + TaskOrchestrator" where
  "new_TaskOrchestrator cfg =
     (if num_workers cfg < 0 then Inl (length_error ''vector::reserve'')
      else Inr
        \<lparr>config = cfg,
         workers = map (\<lambda>i. new_Worker (int i) (threads_per_worker cfg))
                       [0..<nat (num_workers cfg)],
         current_worker = 0,
         system_stats =
           \<lparr>total_tasks_processed = 0, total_tasks_completed = 0, total_tasks_failed = 0,
            total_workers = word_of_int (num_workers cfg)\<rparr>\<rparr>)"

definition selectWorker :: "TaskOrchestrator \<Rightarrow> nat \<times> TaskOrchestrator" where
  "selectWorker orc =
     (unat (current_worker orc) mod length (workers orc),
      orc\<lparr>current_worker := current_worker orc + 1\<rparr>)"

definition distributeTask :: "Task \<Rightarrow> TaskOrchestrator \<Rightarrow> (error + int) \<times> TaskOrchestrator" where
  "distributeTask task orc =
     (if workers orc = [] then (Inl (runtime_error ''No workers available''), orc)
      else
        (let (worker_index, orc1) = selectWorker orc
         in (Inr (int worker_index),
             orc1\<lparr>workers := (workers orc1)
                    [worker_index := addTask task (workers orc1 ! worker_index)]\<rparr>)))"

definition validateTaskInput :: "Task \<Rightarrow> bool" where
  "validateTaskInput task =
     (if \<not> isValid task then False
      else if operation (data task) \<noteq> ''factorial'' \<and>
              operation (data task) \<noteq> ''fibonacci'' \<and>
              operation (data task) \<noteq> ''prime_check'' then False
      else if operation (data task) = ''factorial'' \<and>
              (input (data task) < 0 \<or> input (data task) > 20) then False
      else if operation (data task) = ''fibonacci'' \<and>
              (input (data task) < 0 \<or> input (data task) > 1000) then False
      else if operation (data task) = ''prime_check'' \<and> input (data task) < 2 then False
      else True)"

definition createTask :: "Task \<Rightarrow> TaskOrchestrator \<Rightarrow> (error + string) \<times> TaskOrchestrator" where
  "createTask task orc =
     (if \<not> validateTaskInput task then (Inl (invalid_argument ''Invalid task input''), orc)
      else
        (case distributeTask task orc of
           (Inl e, orc') \<Rightarrow> (Inl e, orc')
         | (Inr worker_index, orc') \<Rightarrow> (Inr (task_id task), orc')))"

text \<open>The two loops over the workers, \<^verbatim>\<open>TaskOrchestrator::getTask\<close> and
  \<^verbatim>\<open>TaskOrchestrator::completeTask\<close>: the first worker that answers ends the
  loop.\<close>

fun getTask_workers :: "string \<Rightarrow> Worker list \<Rightarrow> Task option" where
  "getTask_workers k [] = None"
| "getTask_workers k (w # ws) =
     (case getTask k w of Some task \<Rightarrow> Some task | None \<Rightarrow> getTask_workers k ws)"

definition TaskOrchestrator_getTask :: "string \<Rightarrow> TaskOrchestrator \<Rightarrow> Task option" where
  "TaskOrchestrator_getTask k orc = getTask_workers k (workers orc)"

fun completeTask_workers :: "string \<Rightarrow> Worker list \<Rightarrow> bool \<times> Worker list" where
  "completeTask_workers k [] = (False, [])"
| "completeTask_workers k (w # ws) =
     (let (done, w') = completeTask k w
      in if done then (True, w' # ws)
         else (let (done', ws') = completeTask_workers k ws in (done', w' # ws')))"

definition TaskOrchestrator_completeTask ::
    "string \<Rightarrow> TaskOrchestrator \<Rightarrow> bool \<times> TaskOrchestrator" where
  "TaskOrchestrator_completeTask k orc =
     (let (done, ws) = completeTask_workers k (workers orc) in (done, orc\<lparr>workers := ws\<rparr>))"





section \<open>Reading a task from JSON (task.cpp)\<close>

text \<open>
  The JSON values of the nlohmann library, as far as \<^verbatim>\<open>Task::from_json\<close> reads
  them: null, booleans, integers, strings and objects (arrays and floating
  point numbers are left out). \<open>contains\<close>, \<open>at\<close> and the two \<open>get\<close>
  functions follow the library: \<^verbatim>\<open>at\<close> throws on a missing key and on a value
  that is no object, \<^verbatim>\<open>get<std::string>\<close> throws on a value that is no
  string, and \<^verbatim>\<open>get<int>\<close> converts an integer to 32 bits and a boolean to 0
  or 1 and throws on anything else. The texts of the library's messages are
  abbreviated.
\<close>

datatype json = JNull | JBool bool | JInt int | JString string | JObject "(string \<times> json) list"

definition contains :: "json \<Rightarrow> string \<Rightarrow> bool" where
  "contains j k = (case j of JObject kvs \<Rightarrow> map_of kvs k \<noteq> None | _ \<Rightarrow> False)"

definition at :: "json \<Rightarrow> string \<Rightarrow> string + json" where
  "at j k =
     (case j of
        JObject kvs \<Rightarrow>
          (case map_of kvs k of
             Some v \<Rightarrow> Inr v
           | None \<Rightarrow> Inl (''key '' @ k @ '' not found''))
      | _ \<Rightarrow> Inl ''cannot use at() with this value'')"

definition get_string :: "json \<Rightarrow> string + string" where
  "get_string j = (case j of JString s \<Rightarrow> Inr s | _ \<Rightarrow> Inl ''type must be string'')"

definition get_int :: "json \<Rightarrow> string + int" where
  "get_int j =
     (case j of
        JInt i \<Rightarrow> Inr (sint (word_of_int i :: 32 word))
      | JBool b \<Rightarrow> Inr (if b then 1 else 0)
      | _ \<Rightarrow> Inl ''type must be number'')"

text \<open>Sequencing of steps that can throw: the first exception ends the
  \<^verbatim>\<open>try\<close> block.\<close>

definition and_then :: "string + 'a \<Rightarrow> ('a \<Rightarrow> string + 'b) \<Rightarrow> string + 'b" where
  "and_then r f = (case r of Inl e \<Rightarrow> Inl e | Inr v \<Rightarrow> f v)"

definition TaskData_try :: "json \<Rightarrow> string + TaskData" where
  "TaskData_try j =
     and_then (and_then (at j ''type'') get_string) (\<lambda>ty.
     and_then (and_then (at j ''input'') get_int) (\<lambda>inp.
     and_then (and_then (at j ''operation'') get_string) (\<lambda>op.
     Inr \<lparr>type = ty, input = inp, operation = op\<rparr>)))"

definition TaskData_from_json :: "json \<Rightarrow> error + TaskData" where
  "TaskData_from_json j =
     (case TaskData_try j of
        Inl m \<Rightarrow> Inl (invalid_argument (''Invalid TaskData JSON: '' @ m))
      | Inr d \<Rightarrow> Inr d)"

definition priority_of_int :: "int \<Rightarrow> Priority" where
  "priority_of_int v = (if v = 1 then LOW else if v = 2 then MEDIUM else HIGH)"

definition Task_try :: "json \<Rightarrow> nat \<Rightarrow> string + Task" where
  "Task_try j now =
     and_then (and_then (at j ''id'') get_string) (\<lambda>i.
     and_then (and_then (at j ''title'') get_string) (\<lambda>ti.
     and_then (if contains j ''priority''
               then and_then (and_then (at j ''priority'') get_int) (\<lambda>priority_value.
                      Inr (if priority_value \<ge> 1 \<and> priority_value \<le> 3
                           then priority_of_int priority_value else MEDIUM))
               else Inr MEDIUM) (\<lambda>p.
     and_then (and_then (at j ''data'')
                 (\<lambda>dj. case TaskData_from_json dj of Inl e \<Rightarrow> Inl (what e) | Inr d \<Rightarrow> Inr d)) (\<lambda>d.
     and_then (if contains j ''status''
               then and_then (and_then (at j ''status'') get_string) (\<lambda>s.
                      Inr ((new_Task i ti p d now)\<lparr>status := stringToTaskStatus s\<rparr>))
               else Inr (new_Task i ti p d now)) (\<lambda>task.
     and_then (if contains j ''result''
               then and_then (and_then (at j ''result'') get_string) (\<lambda>r.
                      Inr (task\<lparr>result := r\<rparr>))
               else Inr task) (\<lambda>task.
     if contains j ''error''
     then and_then (and_then (at j ''error'') get_string) (\<lambda>e.
            Inr (task\<lparr>error_message := e\<rparr>))
     else Inr task))))))"

definition Task_from_json :: "json \<Rightarrow> nat \<Rightarrow> error + Task" where
  "Task_from_json j now =
     (case Task_try j now of
        Inl m \<Rightarrow> Inl (invalid_argument (''Invalid Task JSON: '' @ m))
      | Inr task \<Rightarrow> Inr task)"

text \<open>The string that a payload supplies under a key, if it supplies one.\<close>

definition supplied :: "json \<Rightarrow> string \<Rightarrow> string option" where
  "supplied j k = (case at j k of Inr (JString s) \<Rightarrow> Some s | _ \<Rightarrow> None)"

section \<open>The running system\<close>

text \<open>
  The critical sections of the worker, one by one. \<^verbatim>\<open>Worker::addTask\<close> pushes
  the task under the queue lock (\<open>enqueueTask\<close>) and then, under the storage
  lock, writes it to the storage (\<open>storeTask\<close>); between the two a
  processing thread can pop the task. The second part of
  \<^verbatim>\<open>Worker::processTask\<close> writes the outcome of the calculation under the
  storage lock (\<open>storeOutcome\<close>) and then increments the atomic counters
  (\<open>countOutcome\<close>).

  A processing thread is idle, or it holds its copy of a task: popped from
  the queue, marked PROCESSING and stored, or with the outcome stored and
  the counters still to be incremented.
\<close>

datatype job = Idle | Popped Task | Marked Task | Stored_result Task | Stored_failure Task

definition enqueueTask :: "Task \<Rightarrow> Worker \<Rightarrow> Worker" where
  "enqueueTask task w = w\<lparr>task_queue := task_queue w @ [task]\<rparr>"

definition storeTask :: "Task \<Rightarrow> Worker \<Rightarrow> Worker" where
  "storeTask task w = w\<lparr>task_storage := AList.update (task_id task) task (task_storage w)\<rparr>"

definition storeOutcome :: "Task \<Rightarrow> Worker \<Rightarrow> job \<times> Worker" where
  "storeOutcome task w =
     (case execute_calculation (operation (data task)) (input (data task)) of
        Inr res \<Rightarrow>
          (let task2 = task\<lparr>result := res\<rparr>
           in (Stored_result task2,
               w\<lparr>task_storage := AList.update (task_id task2) task2 (task_storage w)\<rparr>))
      | Inl e \<Rightarrow>
          (let task2 = task\<lparr>error_message := what e, status := FAILED\<rparr>
           in (Stored_failure task2,
               w\<lparr>task_storage := AList.update (task_id task2) task2 (task_storage w)\<rparr>)))"

definition countOutcome :: "job \<Rightarrow> Worker \<Rightarrow> Worker" where
  "countOutcome j w =
     (case j of
        Stored_result task \<Rightarrow>
          w\<lparr>stats := (stats w)\<lparr>tasks_processed := tasks_processed (stats w) + 1\<rparr>\<rparr>
      | Stored_failure task \<Rightarrow>
          w\<lparr>stats := (stats w)\<lparr>tasks_failed := tasks_failed (stats w) + 1,
                             tasks_processed := tasks_processed (stats w) + 1\<rparr>\<rparr>
      | _ \<Rightarrow> w)"

text \<open>
  The next step of a thread of \<^verbatim>\<open>Worker::processTaskLoop\<close>: an idle thread
  pops the head of the queue (and has no step when the queue is empty: it
  waits), then marks its copy PROCESSING and stores it, then calculates and
  stores the outcome, then increments the counters and is idle again.
\<close>

definition thread_step :: "job \<Rightarrow> Worker \<Rightarrow> (job \<times> Worker) option" where
  "thread_step j w =
     (case j of
        Idle \<Rightarrow>
          (case task_queue w of
             [] \<Rightarrow> None
           | task # q \<Rightarrow> Some (Popped task, w\<lparr>task_queue := q\<rparr>))
      | Popped task \<Rightarrow> (let (task1, w1) = markProcessing task w in Some (Marked task1, w1))
      | Marked task \<Rightarrow> Some (storeOutcome task w)
      | Stored_result task \<Rightarrow> Some (Idle, countOutcome j w)
      | Stored_failure task \<Rightarrow> Some (Idle, countOutcome j w))"

text \<open>
  The orchestrator together with the processing threads of its workers and
  the \<^verbatim>\<open>addTask\<close> calls under way: \<open>threads s ! i ! n\<close> is the state of thread
  \<open>n\<close> of worker \<open>i\<close>, and \<open>adding s ! i\<close> holds the tasks that a caller has
  pushed on the queue of worker \<open>i\<close> and not yet written to its storage.
  The steps, each one critical section or atomic operation of the code:
  \<^item> \<open>Create task\<close>: a call of \<^verbatim>\<open>createTask\<close> up to the push on the queue of
    the selected worker (between the selection and the push nothing but the
    round-robin counter has changed, so they are taken together); a rejected
    call changes nothing;
  \<^item> \<open>Store i task\<close>: the caller of an \<^verbatim>\<open>addTask\<close> under way on worker \<open>i\<close>
    writes the task to the storage;
  \<^item> \<open>Thread i n\<close>: thread \<open>n\<close> of worker \<open>i\<close> takes its next step;
  \<^item> \<open>Complete k\<close>: a call of \<^verbatim>\<open>completeTask\<close> on the orchestrator, which
    asks the workers in turn; \<open>CompleteOn i k\<close> is the call on worker \<open>i\<close>
    alone, for a run in which other steps fall between the workers.
  A step that cannot be taken is \<open>None\<close>. The system is quiescent when every
  thread is idle.
\<close>

datatype action =
  Create Task | Store nat Task | Thread nat nat | Complete string | CompleteOn nat string

record system =
  orch :: TaskOrchestrator
  threads :: "job list list"
  adding :: "Task list list"



definition set_worker :: "nat \<Rightarrow> Worker \<Rightarrow> TaskOrchestrator \<Rightarrow> TaskOrchestrator" where
  "set_worker i w orc = orc\<lparr>workers := (workers orc)[i := w]\<rparr>"

definition apply_action :: "action \<Rightarrow> system \<Rightarrow> system option" where
  "apply_action a s =
     (case a of
        Create task \<Rightarrow>
          if validateTaskInput task \<and> workers (orch s) \<noteq> [] then
            (let (i, orc1) = selectWorker (orch s)
             in Some (s\<lparr>orch := set_worker i (enqueueTask task (workers orc1 ! i)) orc1,
                        adding := (adding s)[i := adding s ! i @ [task]]\<rparr>))
          else Some s
      | Store i task \<Rightarrow>
          if i < length (workers (orch s)) \<and> i < length (adding s) \<and>
             task \<in> set (adding s ! i)
          then Some (s\<lparr>orch := set_worker i (storeTask task (workers (orch s) ! i)) (orch s),
                       adding := (adding s)[i := remove1 task (adding s ! i)]\<rparr>)
          else None
      | Thread i n \<Rightarrow>
          if i < length (workers (orch s)) \<and> i < length (threads s) \<and>
             n < length (threads s ! i)
          then
            (case thread_step (threads s ! i ! n) (workers (orch s) ! i) of
               None \<Rightarrow> None
             | Some (j, w) \<Rightarrow>
                 Some (s\<lparr>orch := set_worker i w (orch s),
                         threads := (threads s)[i := (threads s ! i)[n := j]]\<rparr>))
          else None
      | Complete k \<Rightarrow> Some (s\<lparr>orch := snd (TaskOrchestrator_completeTask k (orch s))\<rparr>)
      | CompleteOn i k \<Rightarrow>
          if i < length (workers (orch s))
          then Some (s\<lparr>orch := set_worker i (snd (completeTask k (workers (orch s) ! i)))
                                  (orch s)\<rparr>)
          else None)"










text \<open>The moves of a status that the lifecycle allows in one step.\<close>

definition advances :: "TaskStatus \<Rightarrow> TaskStatus \<Rightarrow> bool" where
  "advances a b \<longleftrightarrow>
     a = b \<or> (a = PENDING \<and> b = PROCESSING) \<or>
     (a = PROCESSING \<and> b = COMPLETED) \<or> (a = PROCESSING \<and> b = FAILED)"











text \<open>Concrete tasks and configurations for the examples.\<close>

definition task_example :: "string \<Rightarrow> string \<Rightarrow> int \<Rightarrow> Task" where
  "task_example k op n =
     new_Task k ''Calculate'' MEDIUM \<lparr>type = ''calculation'', input = n, operation = op\<rparr> 0"

definition config_example :: "int \<Rightarrow> OrchestratorConfig" where
  "config_example n = \<lparr>num_workers = n, threads_per_worker = 4, orchestrator_port = 5000\<rparr>"

definition payload_example :: json where
  "payload_example =
     JObject [(''id'', JString ''x''), (''title'', JString ''Injected''), (''priority'', JInt 2),
              (''data'', JObject [(''type'', JString ''calculation''), (''input'', JInt 5),
                                  (''operation'', JString ''factorial'')]),
              (''status'', JString ''processing''), (''result'', JString ''42'')]"

definition injected_example :: Task where
  "injected_example =
     (task_example ''x'' ''factorial'' 5)
       \<lparr>title := ''Injected'', status := PROCESSING, result := ''42''\<rparr>"














section \<open>Validity of a task\<close>

text \<open>
  Claim C7. \<open>isValid\<close> holds exactly when the id and the title are non-empty,
  the type is "calculation", the operation is one of factorial, fibonacci and
  prime_check, the input lies in [0, 100000] and obeys the bound of its
  operation (factorial at most 20, fibonacci at most 1000, prime_check at
  least 2); and it does not read the status, the result, the error message,
  the priority or the creation time.
\<close>

theorem isValid_iff:
  "(isValid t \<longleftrightarrow>
      task_id t \<noteq> [] \<and> title t \<noteq> [] \<and> type (data t) = ''calculation'' \<and>
      operation (data t) \<in> {''factorial'', ''fibonacci'', ''prime_check''} \<and>
      0 \<le> input (data t) \<and> input (data t) \<le> 100000 \<and>
      (operation (data t) = ''factorial'' \<longrightarrow> input (data t) \<le> 20) \<and>
      (operation (data t) = ''fibonacci'' \<longrightarrow> input (data t) \<le> 1000) \<and>
      (operation (data t) = ''prime_check'' \<longrightarrow> 2 \<le> input (data t))) \<and>
   isValid (t\<lparr>status := s, result := r, error_message := e, priority := p, created_at := c\<rparr>)
     = isValid t"
  unfolding isValid_def by auto

theorem isValid_iff_witness:
  "isValid (task_example ''t1'' ''factorial'' 20) \<and>
   \<not> isValid (task_example ''t1'' ''factorial'' 21) \<and>
   isValid ((task_example ''t1'' ''fibonacci'' 1000)
              \<lparr>status := COMPLETED, result := ''x'', error_message := ''y'',
               priority := HIGH, created_at := 7\<rparr>) \<and>
   \<not> isValid (task_example ''t1'' ''prime_check'' 1)"
  using isValid_iff [of "task_example ''t1'' ''factorial'' 20"]
        isValid_iff [of "task_example ''t1'' ''factorial'' 21"]
        isValid_iff [where t = "task_example ''t1'' ''fibonacci'' 1000" and s = COMPLETED
          and r = "''x''" and e = "''y''" and p = HIGH and c = 7]
        isValid_iff [of "task_example ''t1'' ''prime_check'' 1"]
  by (simp add: task_example_def new_Task_def)

section \<open>Completing a task\<close>

lemma getTask_update:
  "map_of (AList.update k v al) k' = (if k' = k then Some v else map_of al k')"
  by (simp add: update_conv')

text \<open>
  Claim C1. \<open>completeTask\<close> succeeds exactly when the stored task is
  PROCESSING with a non-empty result; it then marks that task COMPLETED, adds
  one to the completed counter and touches nothing else, and a second call on
  the same id fails and changes nothing. On a task that is PENDING, COMPLETED
  or FAILED, and on an unknown id, it fails and changes nothing.
\<close>

theorem completeTask_contract:
  "(fst (completeTask k w) \<longleftrightarrow>
      (\<exists>t. getTask k w = Some t \<and> status t = PROCESSING \<and> result t \<noteq> [])) \<and>
   (\<forall>t. getTask k w = Some t \<and> status t = PROCESSING \<and> result t \<noteq> [] \<longrightarrow>
      (let w' = snd (completeTask k w) in
         getTask k w' = Some (t\<lparr>status := COMPLETED\<rparr>) \<and>
         (\<forall>k'. k' \<noteq> k \<longrightarrow> getTask k' w' = getTask k' w) \<and>
         task_queue w' = task_queue w \<and>
         tasks_completed (stats w') = tasks_completed (stats w) + 1 \<and>
         tasks_processed (stats w') = tasks_processed (stats w) \<and>
         tasks_failed (stats w') = tasks_failed (stats w) \<and>
         completeTask k w' = (False, w'))) \<and>
   (\<forall>t. getTask k w = Some t \<and> status t \<in> {PENDING, COMPLETED, FAILED} \<longrightarrow>
      completeTask k w = (False, w)) \<and>
   (getTask k w = None \<longrightarrow> completeTask k w = (False, w))"
  by (auto simp: completeTask_def getTask_def getTask_update Let_def split: option.splits)

theorem completeTask_contract_witness:
  "(let w = processTaskLoop (addTask (task_example ''a'' ''factorial'' 5) (new_Worker 0 1));
        w' = snd (completeTask ''a'' w)
    in fst (completeTask ''a'' w) \<and>
       map_option status (getTask ''a'' w) = Some PROCESSING \<and>
       map_option status (getTask ''a'' w') = Some COMPLETED \<and>
       tasks_completed (stats w) = 0 \<and> tasks_completed (stats w') = 1 \<and>
       completeTask ''a'' w' = (False, w') \<and>
       completeTask ''a'' (addTask (task_example ''a'' ''factorial'' 5) (new_Worker 0 1))
         = (False, addTask (task_example ''a'' ''factorial'' 5) (new_Worker 0 1)))"
proof -
  define w where "w = processTaskLoop (addTask (task_example ''a'' ''factorial'' 5) (new_Worker 0 1))"
  have w: "w = \<lparr>worker_id = 0, thread_count = 1, task_queue = [],
      task_storage = [(''a'', (task_example ''a'' ''factorial'' 5)\<lparr>status := PROCESSING, result := ''120''\<rparr>)],
      stats = \<lparr>tasks_processed = 1, tasks_completed = 0, tasks_failed = 0\<rparr>\<rparr>"
    unfolding w_def by code_simp
  have p: "getTask ''a'' (addTask (task_example ''a'' ''factorial'' 5) (new_Worker 0 1))
             = Some (task_example ''a'' ''factorial'' 5)"
    by code_simp
  show ?thesis
    unfolding w_def [symmetric] Let_def
    using completeTask_contract [of "''a''" w]
      completeTask_contract [of "''a''" "addTask (task_example ''a'' ''factorial'' 5) (new_Worker 0 1)"]
      p
    by (simp add: Let_def w getTask_def task_example_def new_Task_def)
qed

section \<open>The calculations are exact\<close>

subsection \<open>Factorial: the digit vector\<close>

lemma sdiv_nonneg: "0 \<le> a \<Longrightarrow> a sdiv 10 = a div (10::int)"
  by (cases "a = 0") (simp_all add: signed_divide_int_def)

lemma smod_nonneg: "0 \<le> a \<Longrightarrow> a smod 10 = a mod (10::int)"
  by (cases "a = 0") (simp_all add: signed_modulo_int_def)

lemma val_le_append: "val_le (xs @ ys) = val_le xs + 10 ^ length xs * val_le ys"
  by (induction xs) (simp_all add: algebra_simps)

lemma mul_digits_Cons:
  assumes "0 \<le> d * i + carry"
  shows "mul_digits i (d # ds) carry =
           ((d * i + carry) mod 10 # fst (mul_digits i ds ((d * i + carry) div 10)),
            snd (mul_digits i ds ((d * i + carry) div 10)))"
  using assms by (simp add: sdiv_nonneg smod_nonneg split_beta Let_def)

lemma mul_digits_correct:
  assumes "\<forall>d\<in>set ds. 0 \<le> d \<and> d \<le> 9" "0 \<le> carry" "0 \<le> i"
  shows "val_le (fst (mul_digits i ds carry)) + 10 ^ length ds * snd (mul_digits i ds carry)
           = i * val_le ds + carry \<and>
         length (fst (mul_digits i ds carry)) = length ds \<and>
         (\<forall>d\<in>set (fst (mul_digits i ds carry)). 0 \<le> d \<and> d \<le> 9) \<and>
         0 \<le> snd (mul_digits i ds carry)"
  using assms
proof (induction ds arbitrary: carry)
  case Nil
  then show ?case by simp
next
  case (Cons d ds)
  define q where "q = (d * i + carry) div 10"
  define m where "m = (d * i + carry) mod 10"
  define rs where "rs = fst (mul_digits i ds q)"
  define c where "c = snd (mul_digits i ds q)"
  have p: "0 \<le> d * i + carry" using Cons.prems by simp
  have q0: "0 \<le> q" unfolding q_def using p by (simp only: pos_imp_zdiv_nonneg_iff zero_less_numeral)
  have m0: "0 \<le> m" "m \<le> 9" unfolding m_def by presburger+
  have pq: "d * i + carry = 10 * q + m" unfolding q_def m_def by (simp only: mult_div_mod_eq)
  have dsok: "\<forall>d\<in>set ds. 0 \<le> d \<and> d \<le> 9" using Cons.prems(1) by simp
  have ih: "val_le rs + 10 ^ length ds * c = i * val_le ds + q \<and>
         length rs = length ds \<and> (\<forall>d\<in>set rs. 0 \<le> d \<and> d \<le> 9) \<and> 0 \<le> c"
    unfolding rs_def c_def using dsok q0 Cons.prems(3) by (rule Cons.IH)
  have unf: "mul_digits i (d # ds) carry = (m # rs, c)"
    unfolding m_def rs_def c_def q_def by (rule mul_digits_Cons [OF p])
  have "val_le (m # rs) + 10 ^ length (d # ds) * c = m + 10 * (val_le rs + 10 ^ length ds * c)"
    by (simp add: algebra_simps)
  also have "\<dots> = m + 10 * (i * val_le ds + q)" using ih by simp
  also have "\<dots> = i * (10 * val_le ds) + (d * i + carry)" unfolding pq by (simp add: algebra_simps)
  also have "\<dots> = i * val_le (d # ds) + carry" by (simp add: algebra_simps)
  finally have v: "val_le (m # rs) + 10 ^ length (d # ds) * c = i * val_le (d # ds) + carry" .
  show ?case
    unfolding unf fst_conv snd_conv using v ih m0 by simp
qed

lemma mul_digits_top:
  assumes "\<forall>d\<in>set ds. 0 \<le> d \<and> d \<le> 9" "0 \<le> carry" "1 \<le> i" "ds \<noteq> []" "last ds \<noteq> 0"
    "snd (mul_digits i ds carry) = 0"
  shows "last (fst (mul_digits i ds carry)) \<noteq> 0"
  using assms
proof (induction ds arbitrary: carry)
  case Nil
  then show ?case by simp
next
  case (Cons d ds)
  define q where "q = (d * i + carry) div 10"
  define m where "m = (d * i + carry) mod 10"
  define rs where "rs = fst (mul_digits i ds q)"
  define c where "c = snd (mul_digits i ds q)"
  have d0: "0 \<le> d" using Cons.prems(1) by simp
  have di: "0 \<le> d * i" using d0 Cons.prems(3) by simp
  have p: "0 \<le> d * i + carry" using di Cons.prems(2) by simp
  have q0: "0 \<le> q" unfolding q_def using p by (simp only: pos_imp_zdiv_nonneg_iff zero_less_numeral)
  have pq: "d * i + carry = 10 * q + m" unfolding q_def m_def by (simp only: mult_div_mod_eq)
  have dsok: "\<forall>d\<in>set ds. 0 \<le> d \<and> d \<le> 9" using Cons.prems(1) by simp
  have unf: "mul_digits i (d # ds) carry = (m # rs, c)"
    unfolding m_def rs_def c_def q_def by (rule mul_digits_Cons [OF p])
  have c0: "c = 0" using Cons.prems(6) unfolding unf by simp
  show ?case
  proof (cases "ds = []")
    case True
    have "q = 0" using c0 True unfolding c_def by simp
    moreover have "1 \<le> d" using Cons.prems(5) d0 True by simp
    then have "1 \<le> d * i" using Cons.prems(3) mult_mono [of 1 d 1 i] by simp
    then have "1 \<le> d * i + carry" using Cons.prems(2) by simp
    ultimately have "m \<noteq> 0" using pq by simp
    then show ?thesis unfolding unf using True by (simp add: rs_def)
  next
    case False
    have "length rs = length ds"
      unfolding rs_def using mul_digits_correct [OF dsok q0, of i] Cons.prems(3) by simp
    then have ne: "rs \<noteq> []" using False by auto
    have "last ds \<noteq> 0" using Cons.prems(5) False by simp
    then have "last rs \<noteq> 0"
      unfolding rs_def using Cons.IH [OF dsok q0 Cons.prems(3) False] c0 by (simp add: c_def)
    with ne show ?thesis unfolding unf by simp
  qed
qed

lemma push_carry_correct:
  assumes "0 \<le> carry" "\<forall>d\<in>set res. 0 \<le> d \<and> d \<le> 9"
  shows "val_le (push_carry res carry) = val_le res + 10 ^ length res * carry \<and>
         (\<forall>d\<in>set (push_carry res carry). 0 \<le> d \<and> d \<le> 9) \<and>
         (0 < carry \<longrightarrow> push_carry res carry \<noteq> [] \<and> last (push_carry res carry) \<noteq> 0) \<and>
         (carry = 0 \<longrightarrow> push_carry res carry = res)"
  using assms
proof (induction res carry rule: push_carry.induct)
  case (1 res carry)
  show ?case
  proof (cases "carry = 0")
    case True
    then show ?thesis using "1.prems" by (simp add: push_carry.simps)
  next
    case False
    define q where "q = carry div 10"
    define m where "m = carry mod 10"
    have pos: "0 < carry" using False "1.prems"(1) by simp
    have q0: "0 \<le> q" unfolding q_def using pos by (simp only: pos_imp_zdiv_nonneg_iff zero_less_numeral)
    have m0: "0 \<le> m" "m \<le> 9" unfolding m_def by presburger+
    have pq: "carry = 10 * q + m" unfolding q_def m_def by (simp only: mult_div_mod_eq)
    have sq: "carry sdiv 10 = q" "carry smod 10 = m"
      unfolding q_def m_def using pos by (simp_all add: sdiv_nonneg smod_nonneg)
    have ok: "\<forall>d\<in>set (res @ [m]). 0 \<le> d \<and> d \<le> 9" using "1.prems"(2) m0 by simp
    have ih: "val_le (push_carry (res @ [m]) q) = val_le (res @ [m]) + 10 ^ length (res @ [m]) * q \<and>
         (\<forall>d\<in>set (push_carry (res @ [m]) q). 0 \<le> d \<and> d \<le> 9) \<and>
         (0 < q \<longrightarrow> push_carry (res @ [m]) q \<noteq> [] \<and> last (push_carry (res @ [m]) q) \<noteq> 0) \<and>
         (q = 0 \<longrightarrow> push_carry (res @ [m]) q = res @ [m])"
      using "1.IH" [OF False] q0 ok unfolding sq by simp
    have unf: "push_carry res carry = push_carry (res @ [m]) q"
      using False by (subst push_carry.simps) (simp add: sq)
    have top: "q = 0 \<Longrightarrow> m \<noteq> 0" using pos pq by simp
    have v: "val_le (res @ [m]) + 10 ^ length (res @ [m]) * q = val_le res + 10 ^ length res * carry"
      unfolding pq by (simp add: val_le_append algebra_simps)
    have "q = 0 \<or> 0 < q" using q0 by linarith
    then show ?thesis
      unfolding unf using ih top v pos False by auto
  qed
qed

subsection \<open>Decimal numerals\<close>

lemma to_string_digit: "0 \<le> d \<Longrightarrow> d \<le> 9 \<Longrightarrow> to_string d = [digit_char (nat d)]"
  by (simp add: to_string_def decimal.simps)

lemma decimal_step: "0 < n \<Longrightarrow> d < 10 \<Longrightarrow> decimal (10 * n + d) = decimal n @ [digit_char d]"
  by (subst decimal.simps) simp

lemma canon_decimal:
  assumes "\<forall>d\<in>set ds. 0 \<le> d \<and> d \<le> 9" "ds \<noteq> []" "last ds \<noteq> 0"
  shows "0 < val_le ds \<and> concat (map to_string (rev ds)) = decimal (nat (val_le ds))"
  using assms
proof (induction ds)
  case Nil
  then show ?case by simp
next
  case (Cons d ds)
  have d0: "0 \<le> d" "d \<le> 9" using Cons.prems(1) by simp_all
  show ?case
  proof (cases "ds = []")
    case True
    then have "d \<noteq> 0" using Cons.prems(3) by simp
    then show ?thesis using True d0 by (simp add: to_string_digit decimal.simps)
  next
    case False
    have ok: "\<forall>d\<in>set ds. 0 \<le> d \<and> d \<le> 9" using Cons.prems(1) by simp
    have l: "last ds \<noteq> 0" using Cons.prems(3) False by simp
    have ih: "0 < val_le ds" "concat (map to_string (rev ds)) = decimal (nat (val_le ds))"
      using Cons.IH [OF ok False l] by simp_all
    have n: "nat (d + 10 * val_le ds) = 10 * nat (val_le ds) + nat d"
      using ih(1) d0 by simp
    have "decimal (nat (val_le (d # ds))) = decimal (nat (val_le ds)) @ [digit_char (nat d)]"
      using ih(1) d0 by (simp add: n decimal_step)
    then show ?thesis using ih d0 by (simp add: to_string_digit)
  qed
qed

lemma fact_step:
  assumes "canon res" "1 \<le> i"
  shows "canon (push_carry (fst (mul_digits i res 0)) (snd (mul_digits i res 0))) \<and>
         val_le (push_carry (fst (mul_digits i res 0)) (snd (mul_digits i res 0))) = i * val_le res"
proof -
  define rs where "rs = fst (mul_digits i res 0)"
  define c where "c = snd (mul_digits i res 0)"
  have ok: "\<forall>d\<in>set res. 0 \<le> d \<and> d \<le> 9" and ne: "res \<noteq> []" and l: "last res \<noteq> 0"
    using assms(1) by (simp_all add: canon_def)
  have i0: "0 \<le> i" using assms(2) by simp
  have m: "val_le rs + 10 ^ length res * c = i * val_le res"
    "length rs = length res" "\<forall>d\<in>set rs. 0 \<le> d \<and> d \<le> 9" "0 \<le> c"
    unfolding rs_def c_def using mul_digits_correct [OF ok order_refl i0] by simp_all
  have p: "val_le (push_carry rs c) = val_le rs + 10 ^ length rs * c"
    "\<forall>d\<in>set (push_carry rs c). 0 \<le> d \<and> d \<le> 9"
    "0 < c \<longrightarrow> push_carry rs c \<noteq> [] \<and> last (push_carry rs c) \<noteq> 0"
    "c = 0 \<longrightarrow> push_carry rs c = rs"
    using push_carry_correct [OF m(4) m(3)] by simp_all
  have rne: "rs \<noteq> []" using m(2) ne by auto
  have "push_carry rs c \<noteq> [] \<and> last (push_carry rs c) \<noteq> 0"
  proof (cases "c = 0")
    case True
    have "last rs \<noteq> 0"
      unfolding rs_def using mul_digits_top [OF ok order_refl assms(2) ne l] True c_def by simp
    then show ?thesis using True p(4) rne by simp
  next
    case False
    then show ?thesis using m(4) p(3) by simp
  qed
  then have "canon (push_carry rs c)" using p(2) by (simp add: canon_def)
  moreover have "val_le (push_carry rs c) = i * val_le res" using p(1) m(1) m(2) by simp
  ultimately show ?thesis unfolding rs_def c_def by simp
qed

lemma fact_loop_correct:
  assumes "canon res" "1 \<le> i" "i \<le> n + 1" "val_le res = fact (nat (i - 1))"
  shows "canon (fact_loop i n res) \<and> val_le (fact_loop i n res) = fact (nat n)"
  using assms
proof (induction i n res rule: fact_loop.induct)
  case (1 i n res)
  show ?case
  proof (cases "i \<le> n")
    case False
    then have "i - 1 = n" using "1.prems"(3) by simp
    then have "val_le res = fact (nat n)" using "1.prems"(4) by simp
    then show ?thesis using False "1.prems"(1) by (simp add: fact_loop.simps)
  next
    case True
    define res' where "res' = push_carry (fst (mul_digits i res 0)) (snd (mul_digits i res 0))"
    have st: "canon res'" "val_le res' = i * val_le res"
      unfolding res'_def using fact_step [OF "1.prems"(1,2)] by simp_all
    have "nat i = Suc (nat (i - 1))" using "1.prems"(2) by simp
    then have "(fact (nat i) :: int) = i * fact (nat (i - 1))"
      using "1.prems"(2) by (simp only: fact_Suc) simp
    then have v: "val_le res' = fact (nat (i + 1 - 1))" using st(2) "1.prems"(4) by simp
    have unf: "fact_loop i n res = fact_loop (i + 1) n res'"
      using True by (subst fact_loop.simps) (simp add: res'_def split_beta)
    have "canon (fact_loop (i + 1) n res') \<and> val_le (fact_loop (i + 1) n res') = fact (nat n)"
      using "1.IH" [OF True refl prod.collapse, folded res'_def] st(1) "1.prems"(2) True v
      by simp
    then show ?thesis unfolding unf .
  qed
qed

lemma decimal_1: "decimal (Suc 0) = ''1''"
  by code_simp

lemma factorial_correct:
  assumes "0 \<le> n"
  shows "factorial n = Inr (decimal (fact (nat n)))"
proof (cases "n = 0 \<or> n = 1")
  case True
  then show ?thesis by (auto simp: factorial_def decimal_1)
next
  case False
  then have n2: "2 \<le> n" using assms by simp
  have c1: "canon [1]" by (simp add: canon_def)
  have r: "canon (fact_loop 2 n [1]) \<and> val_le (fact_loop 2 n [1]) = fact (nat n)"
    using fact_loop_correct [OF c1, of 2 n] n2 by simp
  have "concat (map to_string (rev (fact_loop 2 n [1]))) = decimal (nat (val_le (fact_loop 2 n [1])))"
    using canon_decimal [of "fact_loop 2 n [1]"] r by (simp add: canon_def)
  also have "\<dots> = decimal (fact (nat n))"
  proof -
    have "nat (fact (nat n) :: int) = fact (nat n)"
      by (simp only: of_nat_fact [symmetric, where 'a = int] nat_int)
    then show ?thesis using r by simp
  qed
  finally show ?thesis using False n2 by (simp add: factorial_def)
qed

subsection \<open>Fibonacci: adding digit strings\<close>

lemma of_char_digit_char: "d < 10 \<Longrightarrow> of_char (digit_char d) = 48 + d"
  by (simp add: digit_char_def)

lemma dig_digit_char: "d < 10 \<Longrightarrow> dig (digit_char d) = d"
  by (simp add: dig_def of_char_digit_char)

lemma dval_Nil: "dval [] = 0"
  by (simp add: dval_def)

lemma dval_snoc: "dval (s @ [c]) = 10 * dval s + dig c"
  by (simp add: dval_def)

lemma dval_take_Suc: "k < length s \<Longrightarrow> dval (take (Suc k) s) = 10 * dval (take k s) + dig (s ! k)"
  by (simp add: take_Suc_conv_app_nth dval_snoc)

lemma foldl_ge: "acc \<le> foldl (\<lambda>acc c. 10 * acc + dig c) acc xs"
proof (induction xs arbitrary: acc)
  case Nil
  show ?case by simp
next
  case (Cons x xs)
  have "acc \<le> 10 * acc + dig x" by simp
  also have "\<dots> \<le> foldl (\<lambda>acc c. 10 * acc + dig c) (10 * acc + dig x) xs" by (rule Cons.IH)
  finally show ?case by simp
qed

lemma dval_Cons_ge: "dig x \<le> dval (x # xs)"
  using foldl_ge [of "dig x" xs] by (simp add: dval_def)

lemma dig_zero: "48 \<le> (of_char c :: nat) \<Longrightarrow> c \<noteq> CHR ''0'' \<Longrightarrow> 0 < dig c"
proof -
  assume a: "48 \<le> (of_char c :: nat)" and b: "c \<noteq> CHR ''0''"
  have "(of_char c :: nat) \<noteq> of_char (CHR ''0'')" using b by (simp only: of_char_eq_iff) simp
  then have "(of_char c :: nat) \<noteq> 48" by simp
  then show ?thesis using a by (simp add: dig_def)
qed

lemma cstr_take_pos:
  assumes "cstr s" "1 \<le> k" "2 \<le> length s"
  shows "0 < dval (take k s)"
proof -
  obtain x xs where s: "s = x # xs" using assms(1) by (cases s) (auto simp: cstr_def)
  obtain k' where k: "k = Suc k'" using assms(2) by (cases k) auto
  have "x \<noteq> CHR ''0''" using assms(1,3) s by (auto simp: cstr_def)
  moreover have "48 \<le> (of_char x :: nat)" using assms(1) s by (simp add: cstr_def)
  ultimately have "0 < dig x" by (simp add: dig_zero)
  then show ?thesis using dval_Cons_ge [of x "take k' xs"] s k by simp
qed

lemma decimal_small: "n < 10 \<Longrightarrow> decimal n = [digit_char n]"
  by (subst decimal.simps) simp

lemma decimal_cstr: "cstr (decimal n) \<and> dval (decimal n) = n"
proof (induction n rule: decimal.induct)
  case (1 n)
  show ?case
  proof (cases "n < 10")
    case True
    then show ?thesis
      by (simp add: decimal_small cstr_def of_char_digit_char dval_def dig_digit_char)
  next
    case False
    define q where "q = n div 10"
    define m where "m = n mod 10"
    have m: "m < 10" unfolding m_def by simp
    have q: "0 < q" unfolding q_def using False by simp
    have n: "n = 10 * q + m" unfolding q_def m_def by simp
    have ih: "cstr (decimal q)" "dval (decimal q) = q"
      using "1.IH" [OF False] by (simp_all add: q_def)
    have unf: "decimal n = decimal q @ [digit_char m]"
      unfolding q_def m_def using False by (subst decimal.simps) simp
    have ne: "decimal q \<noteq> []" using ih(1) by (simp add: cstr_def)
    have hd0: "hd (decimal q) \<noteq> CHR ''0''"
    proof
      assume h: "hd (decimal q) = CHR ''0''"
      then have "length (decimal q) = 1" using ih(1) by (simp add: cstr_def)
      then obtain x where x: "decimal q = [x]" by (cases "decimal q") auto
      then have "x = CHR ''0''" using h by simp
      then have "dval (decimal q) = 0" using x by (simp add: dval_def dig_def)
      then show False using ih(2) q by simp
    qed
    have "cstr (decimal q @ [digit_char m])"
      using ih(1) ne hd0 m by (auto simp: cstr_def of_char_digit_char)
    moreover have "dval (decimal q @ [digit_char m]) = n"
      using ih(2) m n by (simp add: dval_snoc dig_digit_char)
    ultimately show ?thesis unfolding unf by simp
  qed
qed

lemma digit_at:
  assumes "cstr a" "0 \<le> i" "i < int (length a)"
  shows "int (of_char (a ! nat i)) - 48 = int (dig (a ! nat i)) \<and> dig (a ! nat i) \<le> 9"
proof -
  have "a ! nat i \<in> set a" using assms(2,3) by simp
  then have "48 \<le> (of_char (a ! nat i) :: nat) \<and> (of_char (a ! nat i) :: nat) \<le> 57"
    using assms(1) by (simp add: cstr_def)
  then show ?thesis unfolding dig_def by linarith
qed

lemma take_value:
  assumes "cstr a" "i < int (length a)"
  shows "dval (take (nat (i + 1)) a) =
           10 * dval (take (nat i) a) + (if 0 \<le> i then dig (a ! nat i) else 0) \<and>
         (i \<le> 0 \<longrightarrow> dval (take (nat i) a) = 0) \<and>
         (1 \<le> i \<longrightarrow> 0 < dval (take (nat i) a))"
proof (cases "0 \<le> i")
  case True
  have "nat (i + 1) = Suc (nat i)" using True by simp
  moreover have "nat i < length a" using True assms(2) by simp
  ultimately have "dval (take (nat (i + 1)) a) = 10 * dval (take (nat i) a) + dig (a ! nat i)"
    by (simp only: dval_take_Suc)
  moreover have "1 \<le> i \<Longrightarrow> 0 < dval (take (nat i) a)"
    using cstr_take_pos [OF assms(1), of "nat i"] assms(2) by simp
  ultimately show ?thesis using True by (auto simp: dval_Nil)
next
  case False
  then show ?thesis by (simp add: dval_Nil)
qed

lemma add_loop_correct:
  assumes "cstr a" "cstr b" "i < int (length a)" "j < int (length b)" "0 \<le> c" "c \<le> 1"
  shows "add_loop a b i j c res =
           (if i < 0 \<and> j < 0 \<and> c = 0 then res
            else decimal (dval (take (nat (i + 1)) a) + dval (take (nat (j + 1)) b) + nat c) @ res)"
  using assms
proof (induction a b i j c res rule: add_loop.induct)
  case (1 a b i j c res)
  show ?case
  proof (cases "i < 0 \<and> j < 0 \<and> c = 0")
    case True
    then show ?thesis by (subst add_loop.simps) simp
  next
    case False
    define d1 where "d1 = (if 0 \<le> i then dig (a ! nat i) else 0)"
    define d2 where "d2 = (if 0 \<le> j then dig (b ! nat j) else 0)"
    define A where "A = dval (take (nat i) a)"
    define B where "B = dval (take (nat j) b)"
    define sum where "sum = int d1 + int d2 + c"
    define q where "q = sum div 10"
    define m where "m = sum mod 10"
    have e1: "(if i \<ge> 0 then int (of_char (a ! nat i)) - 48 else 0) = int d1" and d1: "d1 \<le> 9"
      unfolding d1_def using digit_at [OF "1.prems"(1) _ "1.prems"(3)] by auto
    have e2: "(if j \<ge> 0 then int (of_char (b ! nat j)) - 48 else 0) = int d2" and d2: "d2 \<le> 9"
      unfolding d2_def using digit_at [OF "1.prems"(2) _ "1.prems"(4)] by auto
    have s: "0 \<le> sum" "sum \<le> 19" unfolding sum_def using d1 d2 "1.prems"(5,6) by simp_all
    have q: "0 \<le> q" "q \<le> 1" unfolding q_def using s by presburger+
    have m: "0 \<le> m" "m \<le> 9" unfolding m_def by presburger+
    have sqm: "sum = 10 * q + m" unfolding q_def m_def by simp
    have sq: "sum sdiv 10 = q" "sum smod 10 = m"
      unfolding q_def m_def using s(1) by (simp_all add: sdiv_nonneg smod_nonneg)
    have ts: "to_string m = [digit_char (nat m)]" using m by (rule to_string_digit)
    have cond: "i \<ge> 0 \<or> j \<ge> 0 \<or> c \<noteq> 0" using False by auto
    have unf: "add_loop a b i j c res = add_loop a b (i - 1) (j - 1) q (digit_char (nat m) # res)"
      using cond by (subst add_loop.simps) (simp add: Let_def e1 e2 sum_def [symmetric] sq ts)
    define stop where "stop \<longleftrightarrow> i - 1 < 0 \<and> j - 1 < 0 \<and> q = 0"
    have ih: "add_loop a b (i - 1) (j - 1) q (digit_char (nat m) # res) =
           (if stop then digit_char (nat m) # res
            else decimal (A + B + nat q) @ digit_char (nat m) # res)"
      using "1.IH" [OF cond refl refl refl "1.prems"(1,2)] "1.prems"(3,4) q
      by (simp add: e1 e2 sum_def [symmetric] sq ts stop_def A_def B_def)
    have ta: "dval (take (nat (i + 1)) a) = 10 * A + d1" "i \<le> 0 \<longrightarrow> A = 0" "1 \<le> i \<longrightarrow> 0 < A"
      unfolding A_def d1_def using take_value [OF "1.prems"(1,3)] by simp_all
    have tb: "dval (take (nat (j + 1)) b) = 10 * B + d2" "j \<le> 0 \<longrightarrow> B = 0" "1 \<le> j \<longrightarrow> 0 < B"
      unfolding B_def d2_def using take_value [OF "1.prems"(2,4)] by simp_all
    have "int (10 * A + d1 + (10 * B + d2) + nat c) = int (10 * (A + B + nat q) + nat m)"
      using sqm "1.prems"(5) q(1) m(1) unfolding sum_def by simp
    then have V: "dval (take (nat (i + 1)) a) + dval (take (nat (j + 1)) b) + nat c
               = 10 * (A + B + nat q) + nat m"
      unfolding ta(1) tb(1) by (simp only: of_nat_eq_iff)
    have m10: "nat m < 10" using m by simp
    show ?thesis
    proof (cases stop)
      case True
      then have "A + B + nat q = 0" using ta(2) tb(2) by (simp add: stop_def)
      then have "decimal (10 * (A + B + nat q) + nat m) = [digit_char (nat m)]"
        using m10 by (simp add: decimal_small)
      then show ?thesis unfolding unf ih V using True False by simp
    next
      case F: False
      then have "0 < A + B + nat q" using ta(3) tb(3) q unfolding stop_def by auto
      then have "decimal (10 * (A + B + nat q) + nat m) = decimal (A + B + nat q) @ [digit_char (nat m)]"
        using m10 by (rule decimal_step)
      then show ?thesis unfolding unf ih V using F False by simp
    qed
  qed
qed

lemma addStrings_decimal: "addStrings (decimal x) (decimal y) = decimal (x + y)"
proof -
  have a: "cstr (decimal x)" "dval (decimal x) = x" using decimal_cstr [of x] by simp_all
  have b: "cstr (decimal y)" "dval (decimal y) = y" using decimal_cstr [of y] by simp_all
  have la: "0 < length (decimal x)" using a(1) by (simp add: cstr_def)
  have lb: "0 < length (decimal y)" using b(1) by (simp add: cstr_def)
  show ?thesis
    unfolding addStrings_def
    using add_loop_correct [OF a(1) b(1), of "int (length (decimal x)) - 1" "int (length (decimal y)) - 1" 0 "[]"]
          la lb a(2) b(2)
    by simp
qed

lemma fib_loop_correct:
  assumes "2 \<le> i" "i \<le> n + 1" "prev = decimal (fib (nat (i - 2)))" "cur = decimal (fib (nat (i - 1)))"
  shows "fib_loop i n prev cur = decimal (fib (nat n))"
  using assms
proof (induction i n prev cur rule: fib_loop.induct)
  case (1 i n prev cur)
  show ?case
  proof (cases "i \<le> n")
    case False
    then have "i - 1 = n" using "1.prems"(2) by simp
    then show ?thesis using False "1.prems"(4) by (subst fib_loop.simps) simp
  next
    case True
    have n: "nat i = Suc (Suc (nat (i - 2)))" "nat (i - 1) = Suc (nat (i - 2))"
      using "1.prems"(1) by simp_all
    have "addStrings prev cur = decimal (fib (nat (i - 2)) + fib (nat (i - 1)))"
      unfolding "1.prems"(3,4) by (rule addStrings_decimal)
    also have "\<dots> = decimal (fib (nat i))" unfolding n by simp
    finally have nx: "addStrings prev cur = decimal (fib (nat (i + 1 - 1)))" by simp
    have "fib_loop (i + 1) n cur (addStrings prev cur) = decimal (fib (nat n))"
      using "1.IH" [OF True _ _ _ nx] "1.prems"(1,4) True by simp
    then show ?thesis using True by (subst fib_loop.simps) simp
  qed
qed

lemma fibonacci_correct:
  assumes "0 \<le> n"
  shows "fibonacci n = Inr (decimal (fib (nat n)))"
proof -
  have d0: "decimal 0 = ''0''" and d1: "decimal (Suc 0) = ''1''" by code_simp+
  show ?thesis
  proof (cases "n = 0 \<or> n = 1")
    case True
    then show ?thesis using d0 d1 by (auto simp: fibonacci_def)
  next
    case False
    then have n2: "2 \<le> n" using assms by simp
    have "fib_loop 2 n ''0'' ''1'' = decimal (fib (nat n))"
      using fib_loop_correct [of 2 n "''0''" "''1''"] n2 d0 d1 by simp
    then show ?thesis using False n2 by (simp add: fibonacci_def)
  qed
qed

subsection \<open>Primality by trial division\<close>

lemma isqrt_from_correct:
  assumes "k * k \<le> n"
  shows "isqrt_from n k * isqrt_from n k \<le> n \<and> n < (isqrt_from n k + 1) * (isqrt_from n k + 1)"
  using assms
proof (induction n k rule: isqrt_from.induct)
  case (1 n k)
  show ?case
  proof (cases "(k + 1) * (k + 1) \<le> n")
    case True
    have "isqrt_from n k = isqrt_from n (k + 1)" using True by (subst isqrt_from.simps) simp
    then show ?thesis using "1.IH" [OF True True] by simp
  next
    case False
    have "isqrt_from n k = k" using False by (subst isqrt_from.simps) simp
    then show ?thesis using False "1.prems" by simp
  qed
qed

lemma isqrt_correct:
  assumes "0 \<le> n"
  shows "0 \<le> isqrt n \<and> isqrt n * isqrt n \<le> n \<and> n < (isqrt n + 1) * (isqrt n + 1)"
proof -
  define r where "r = isqrt_from (nat n) 0"
  have r: "r * r \<le> nat n" "nat n < (r + 1) * (r + 1)"
    unfolding r_def using isqrt_from_correct [of 0 "nat n"] by simp_all
  have "int (r * r) \<le> int (nat n)" using r(1) by (simp only: of_nat_le_iff)
  then have a: "int r * int r \<le> n" using assms by simp
  have "int (nat n) < int ((r + 1) * (r + 1))" using r(2) by (simp only: of_nat_less_iff)
  then have b: "n < (int r + 1) * (int r + 1)" using assms by (simp add: algebra_simps)
  show ?thesis unfolding isqrt_def r_def [symmetric] using a b by simp
qed

lemma smod_pos: "0 \<le> n \<Longrightarrow> 0 < i \<Longrightarrow> n smod i = n mod (i::int)"
  by (cases "n = 0") (simp_all add: signed_modulo_int_def)

lemma prime_loop_correct:
  assumes "0 \<le> n" "0 < i"
  shows "prime_loop n i limit =
           (if \<exists>t\<ge>0. i + 2 * t \<le> limit \<and> (i + 2 * t) dvd n then ''false'' else ''true'')"
  using assms
proof (induction n i limit rule: prime_loop.induct)
  case (1 n i limit)
  show ?case
  proof (cases "i \<le> limit")
    case False
    then have "\<not> (\<exists>t\<ge>0. i + 2 * t \<le> limit \<and> (i + 2 * t) dvd n)" by auto
    then show ?thesis using False by (subst prime_loop.simps) simp
  next
    case True
    have sm: "n smod i = 0 \<longleftrightarrow> i dvd n"
      using "1.prems" by (simp add: smod_pos dvd_eq_mod_eq_0)
    show ?thesis
    proof (cases "i dvd n")
      case d: True
      then have "\<exists>t\<ge>0. i + 2 * t \<le> limit \<and> (i + 2 * t) dvd n"
        using True by (intro exI [of _ 0]) simp
      then show ?thesis using True d sm by (subst prime_loop.simps) simp
    next
      case d: False
      have ih: "prime_loop n (i + 2) limit =
           (if \<exists>t\<ge>0. i + 2 + 2 * t \<le> limit \<and> (i + 2 + 2 * t) dvd n then ''false'' else ''true'')"
        using "1.IH" [OF True] d sm "1.prems" by simp
      have "(\<exists>t\<ge>0. i + 2 + 2 * t \<le> limit \<and> (i + 2 + 2 * t) dvd n) \<longleftrightarrow>
            (\<exists>t\<ge>0. i + 2 * t \<le> limit \<and> (i + 2 * t) dvd n)" (is "?L \<longleftrightarrow> ?R")
      proof
        assume ?L
        then obtain t where t: "0 \<le> t" "i + 2 + 2 * t \<le> limit" "(i + 2 + 2 * t) dvd n" by blast
        have e: "i + 2 * (t + 1) = i + 2 + 2 * t" by simp
        have "0 \<le> t + 1 \<and> i + 2 * (t + 1) \<le> limit \<and> (i + 2 * (t + 1)) dvd n"
          unfolding e using t by simp
        then show ?R by blast
      next
        assume ?R
        then obtain t where t: "0 \<le> t" "i + 2 * t \<le> limit" "(i + 2 * t) dvd n" by blast
        have "t \<noteq> 0" using t(3) d by auto
        then have "0 \<le> t - 1" using t(1) by simp
        moreover have e: "i + 2 + 2 * (t - 1) = i + 2 * t" by simp
        ultimately have "0 \<le> t - 1 \<and> i + 2 + 2 * (t - 1) \<le> limit \<and> (i + 2 + 2 * (t - 1)) dvd n"
          unfolding e using t by simp
        then show ?L by blast
      qed
      then show ?thesis using True d sm ih by (subst prime_loop.simps) simp
    qed
  qed
qed

lemma odd_divisor_form:
  assumes "k dvd n" "\<not> 2 dvd n" "1 < (k::int)"
  shows "\<exists>t\<ge>0. k = 3 + 2 * t"
proof -
  have "\<not> 2 dvd k" using assms(1,2) dvd_trans by blast
  then have "k mod 2 = 1" by presburger
  then have "k = 3 + 2 * ((k - 3) div 2)" by presburger
  moreover have "3 \<le> k" using \<open>k mod 2 = 1\<close> assms(3) by presburger
  then have "0 \<le> (k - 3) div 2" by simp
  ultimately show ?thesis by blast
qed

lemma prime_check_correct:
  assumes "2 \<le> n"
  shows "prime_check n = Inr (if is_prime n then ''true'' else ''false'')"
proof (cases "n = 2")
  case True
  have "is_prime 2" by (simp add: is_prime_def)
  then show ?thesis using True by (simp add: prime_check_def)
next
  case n2: False
  then have n3: "3 \<le> n" using assms by simp
  have sm: "n smod 2 = 0 \<longleftrightarrow> 2 dvd n"
    using assms by (simp add: smod_pos dvd_eq_mod_eq_0)
  show ?thesis
  proof (cases "2 dvd n")
    case True
    have "2 \<in> {2..<n}" using n3 by simp
    then have "\<not> is_prime n" using True unfolding is_prime_def by blast
    then show ?thesis using True sm n2 assms by (simp add: prime_check_def)
  next
    case odd: False
    define l where "l = isqrt n"
    have l: "0 \<le> l" "l * l \<le> n" "n < (l + 1) * (l + 1)"
      unfolding l_def using isqrt_correct [of n] assms by simp_all
    have loop: "prime_loop n 3 l =
           (if \<exists>t\<ge>0. 3 + 2 * t \<le> l \<and> (3 + 2 * t) dvd n then ''false'' else ''true'')"
      using prime_loop_correct [of n 3 l] assms by simp
    have "(\<exists>t\<ge>0. 3 + 2 * t \<le> l \<and> (3 + 2 * t) dvd n) \<longleftrightarrow> \<not> is_prime n"
    proof
      assume "\<exists>t\<ge>0. 3 + 2 * t \<le> l \<and> (3 + 2 * t) dvd n"
      then obtain t where t: "0 \<le> t" "3 + 2 * t \<le> l" "(3 + 2 * t) dvd n" by blast
      define k where "k = 3 + 2 * t"
      have k: "3 \<le> k" "k \<le> l" "k dvd n" unfolding k_def using t by simp_all
      have "k * 3 \<le> k * k" using k(1) by (simp add: mult_left_mono)
      also have "\<dots> \<le> l * l" using k(1,2) by (simp add: mult_mono)
      finally have "k * 3 \<le> n" using l(2) by simp
      then have "k < n" using k(1) by simp
      then have "k \<in> {2..<n}" using k(1) by simp
      then show "\<not> is_prime n" using k(3) unfolding is_prime_def by blast
    next
      assume "\<not> is_prime n"
      then obtain d where d: "2 \<le> d" "d < n" "d dvd n"
        using assms unfolding is_prime_def by auto
      then obtain e where e: "n = d * e" by (auto simp: dvd_def)
      have e1: "1 < e"
      proof (rule ccontr)
        assume "\<not> 1 < e"
        then have "e \<le> 1" by simp
        then have "d * e \<le> d * 1" using d(1) by (intro mult_left_mono) simp_all
        then show False using e d(2) by simp
      qed
      define k where "k = min d e"
      have k1: "1 < k" unfolding k_def using d(1) e1 by simp
      have kd: "k dvd n" unfolding k_def e by (simp add: min_def)
      have "k * k \<le> d * e" unfolding k_def using d(1) e1 by (intro mult_mono) simp_all
      then have kk: "k * k \<le> n" using e by simp
      have kl: "k \<le> l"
      proof (rule ccontr)
        assume "\<not> k \<le> l"
        then have "l + 1 \<le> k" by simp
        then have "(l + 1) * (l + 1) \<le> k * k" using l(1) by (intro mult_mono) simp_all
        then show False using kk l(3) by simp
      qed
      obtain t where t: "0 \<le> t" "k = 3 + 2 * t"
        using odd_divisor_form [OF kd odd k1] by blast
      show "\<exists>t\<ge>0. 3 + 2 * t \<le> l \<and> (3 + 2 * t) dvd n"
        using t kl kd by blast
    qed
    then have "prime_loop n 3 (isqrt n) = (if is_prime n then ''true'' else ''false'')"
      using loop unfolding l_def by simp
    then show ?thesis using odd sm n2 assms by (simp add: prime_check_def)
  qed
qed

text \<open>
  Claim C9. For \<open>0 \<le> n \<le> 20\<close>, \<open>factorial n\<close> returns the decimal numeral
  of \<open>n!\<close> (so "120" for 5 and "2432902008176640000" for 20); for
  \<open>0 \<le> n \<le> 1000\<close>, \<open>fibonacci n\<close> returns the decimal numeral of the
  \<open>n\<close>-th Fibonacci number, counted from \<open>fib 0 = 0\<close> and \<open>fib 1 = 1\<close>; for
  \<open>n \<ge> 2\<close>, \<open>prime_check n\<close> returns "true" when \<open>n\<close> is prime and "false"
  otherwise. Below their ranges (\<open>n < 0\<close>, and \<open>n < 2\<close> for the prime check)
  the three functions throw.
\<close>

theorem calculations_contract:
  "(0 \<le> n \<and> n \<le> 20 \<longrightarrow> factorial n = Inr (decimal (fact (nat n)))) \<and>
   (n < 0 \<longrightarrow> (\<exists>e. factorial n = Inl e)) \<and>
   factorial 5 = Inr ''120'' \<and> factorial 20 = Inr ''2432902008176640000'' \<and>
   (0 \<le> n \<and> n \<le> 1000 \<longrightarrow> fibonacci n = Inr (decimal (fib (nat n)))) \<and>
   (n < 0 \<longrightarrow> (\<exists>e. fibonacci n = Inl e)) \<and>
   fibonacci 0 = Inr ''0'' \<and> fibonacci 1 = Inr ''1'' \<and>
   (2 \<le> n \<longrightarrow> prime_check n = Inr (if is_prime n then ''true'' else ''false'')) \<and>
   (n < 2 \<longrightarrow> (\<exists>e. prime_check n = Inl e))"
proof -
  have f5: "factorial 5 = Inr ''120''" by code_simp
  have f20: "factorial 20 = Inr ''2432902008176640000''" by code_simp
  have b0: "fibonacci 0 = Inr ''0''" "fibonacci 1 = Inr ''1''" by (simp_all add: fibonacci_def)
  have gen: "(0 \<le> n \<and> n \<le> 20 \<longrightarrow> factorial n = Inr (decimal (fact (nat n)))) \<and>
   (n < 0 \<longrightarrow> (\<exists>e. factorial n = Inl e)) \<and>
   (0 \<le> n \<and> n \<le> 1000 \<longrightarrow> fibonacci n = Inr (decimal (fib (nat n)))) \<and>
   (n < 0 \<longrightarrow> (\<exists>e. fibonacci n = Inl e)) \<and>
   (2 \<le> n \<longrightarrow> prime_check n = Inr (if is_prime n then ''true'' else ''false'')) \<and>
   (n < 2 \<longrightarrow> (\<exists>e. prime_check n = Inl e))"
    using factorial_correct [of n] fibonacci_correct [of n] prime_check_correct [of n]
    by (simp add: factorial_def fibonacci_def prime_check_def)
  show ?thesis using gen f5 f20 b0 by blast
qed

theorem calculations_contract_witness:
  "factorial 6 = Inr ''720'' \<and> fibonacci 10 = Inr ''55'' \<and>
   prime_check 17 = Inr ''true'' \<and> prime_check 100 = Inr ''false'' \<and>
   (\<exists>e. factorial (- 1) = Inl e) \<and> (\<exists>e. fibonacci (- 1) = Inl e) \<and>
   (\<exists>e. prime_check 1 = Inl e)"
proof -
  have "fact (nat 6) = (720::nat)" by (simp add: fact_numeral)
  moreover have "decimal 720 = ''720''" by code_simp
  ultimately have d1: "decimal (fact (nat 6)) = ''720''" by simp
  have d2: "decimal (fib (nat 10)) = ''55''" by code_simp
  have p1: "is_prime 17" by code_simp
  have p2: "\<not> is_prime 100" by code_simp
  have r1: "(0::int) \<le> 6 \<and> (6::int) \<le> 20" "(0::int) \<le> 10 \<and> (10::int) \<le> 1000"
    "(2::int) \<le> 17" "(2::int) \<le> 100" "(- 1::int) < 0" "(1::int) < 2" by simp_all
  have a: "factorial 6 = Inr (decimal (fact (nat 6)))"
    using calculations_contract [of 6] r1(1) by blast
  have b: "fibonacci 10 = Inr (decimal (fib (nat 10)))"
    using calculations_contract [of 10] r1(2) by blast
  have c: "prime_check 17 = Inr (if is_prime 17 then ''true'' else ''false'')"
    using calculations_contract [of 17] r1(3) by blast
  have d: "prime_check 100 = Inr (if is_prime 100 then ''true'' else ''false'')"
    using calculations_contract [of 100] r1(4) by blast
  have e: "(\<exists>e. factorial (- 1) = Inl e) \<and> (\<exists>e. fibonacci (- 1) = Inl e)"
    using calculations_contract [of "- 1"] r1(5) by blast
  have f: "\<exists>e. prime_check 1 = Inl e"
    using calculations_contract [of 1] r1(6) by blast
  show ?thesis
    unfolding a b c d d1 d2 using p1 p2 e f by simp
qed

section \<open>Processing a task\<close>

lemma markProcessing_simps:
  "fst (markProcessing task w) = task\<lparr>status := PROCESSING\<rparr>"
  "getTask k (snd (markProcessing task w)) =
     (if k = task_id task then Some (task\<lparr>status := PROCESSING\<rparr>) else getTask k w)"
  "stats (snd (markProcessing task w)) = stats w"
  "task_queue (snd (markProcessing task w)) = task_queue w"
  by (simp_all add: markProcessing_def Let_def getTask_def getTask_update)

lemma finishProcessing_Inr:
  assumes "execute_calculation (operation (data task)) (input (data task)) = Inr res"
  shows "getTask k (finishProcessing task w) =
           (if k = task_id task then Some (task\<lparr>result := res\<rparr>) else getTask k w)"
    and "stats (finishProcessing task w) =
           (stats w)\<lparr>tasks_processed := tasks_processed (stats w) + 1\<rparr>"
    and "task_queue (finishProcessing task w) = task_queue w"
  using assms by (simp_all add: finishProcessing_def Let_def getTask_def getTask_update)

lemma finishProcessing_Inl:
  assumes "execute_calculation (operation (data task)) (input (data task)) = Inl e"
  shows "getTask k (finishProcessing task w) =
           (if k = task_id task then Some (task\<lparr>error_message := what e, status := FAILED\<rparr>)
            else getTask k w)"
    and "stats (finishProcessing task w) =
           (stats w)\<lparr>tasks_failed := tasks_failed (stats w) + 1,
                     tasks_processed := tasks_processed (stats w) + 1\<rparr>"
    and "task_queue (finishProcessing task w) = task_queue w"
  using assms by (simp_all add: finishProcessing_def Let_def getTask_def getTask_update)

lemma processTask_split:
  "processTask task w =
     finishProcessing (fst (markProcessing task w)) (snd (markProcessing task w))"
  by (simp add: processTask_def split_beta)

text \<open>
  Claim C2, as the code has it. \<open>processTask\<close> first stores the task with
  status PROCESSING and the result it was submitted with, which is empty
  for a task made by the constructor (this is what a lookup sees while the
  calculation runs), then calculates. On success the stored task has the
  result and is still PROCESSING, and the processed counter alone goes up by
  one: the completed counter is not touched (only \<open>completeTask\<close> increments
  it). On an exception the stored task has the exception's message and
  status FAILED, and the processed and the failed counter go up by one each.
  Other tasks and the queue are not touched.
\<close>

theorem processTask_contract:
  "processTask task w =
     finishProcessing (fst (markProcessing task w)) (snd (markProcessing task w)) \<and>
   getTask (task_id task) (snd (markProcessing task w)) = Some (task\<lparr>status := PROCESSING\<rparr>) \<and>
   stats (snd (markProcessing task w)) = stats w \<and>
   (\<forall>res. execute_calculation (operation (data task)) (input (data task)) = Inr res \<longrightarrow>
      getTask (task_id task) (processTask task w)
        = Some (task\<lparr>status := PROCESSING, result := res\<rparr>) \<and>
      tasks_processed (stats (processTask task w)) = tasks_processed (stats w) + 1 \<and>
      tasks_completed (stats (processTask task w)) = tasks_completed (stats w) \<and>
      tasks_failed (stats (processTask task w)) = tasks_failed (stats w)) \<and>
   (\<forall>e. execute_calculation (operation (data task)) (input (data task)) = Inl e \<longrightarrow>
      getTask (task_id task) (processTask task w)
        = Some (task\<lparr>error_message := what e, status := FAILED\<rparr>) \<and>
      tasks_processed (stats (processTask task w)) = tasks_processed (stats w) + 1 \<and>
      tasks_completed (stats (processTask task w)) = tasks_completed (stats w) \<and>
      tasks_failed (stats (processTask task w)) = tasks_failed (stats w) + 1) \<and>
   (\<forall>k. k \<noteq> task_id task \<longrightarrow> getTask k (processTask task w) = getTask k w) \<and>
   task_queue (processTask task w) = task_queue w"
proof -
  have other: "\<forall>k. k \<noteq> task_id task \<longrightarrow> getTask k (processTask task w) = getTask k w"
    and queue: "task_queue (processTask task w) = task_queue w"
    by (cases "execute_calculation (operation (data task)) (input (data task))";
        simp add: processTask_split markProcessing_simps finishProcessing_Inr finishProcessing_Inl)+
  show ?thesis
    using other queue
    by (simp add: processTask_split [symmetric] markProcessing_simps)
       (simp add: processTask_split markProcessing_simps finishProcessing_Inr finishProcessing_Inl)
qed

lemma execute_factorial_5: "execute_calculation ''factorial'' 5 = Inr ''120''"
  by code_simp

lemma execute_factorial_neg:
  "execute_calculation ''factorial'' (- 1) = Inl (invalid_argument ''Invalid operation or input'')"
  by (simp add: execute_calculation_def validate_calculation_input_def)

theorem processTask_contract_witness:
  "getTask ''a'' (processTask (task_example ''a'' ''factorial'' 5) (new_Worker 0 1))
     = Some ((task_example ''a'' ''factorial'' 5)\<lparr>status := PROCESSING, result := ''120''\<rparr>) \<and>
   tasks_processed (stats (processTask (task_example ''a'' ''factorial'' 5) (new_Worker 0 1))) = 1 \<and>
   tasks_completed (stats (processTask (task_example ''a'' ''factorial'' 5) (new_Worker 0 1))) = 0 \<and>
   tasks_failed (stats (processTask (task_example ''a'' ''factorial'' 5) (new_Worker 0 1))) = 0 \<and>
   getTask ''b'' (processTask (task_example ''b'' ''factorial'' (- 1)) (new_Worker 0 1))
     = Some ((task_example ''b'' ''factorial'' (- 1))
              \<lparr>error_message := ''Invalid operation or input'', status := FAILED\<rparr>) \<and>
   tasks_processed (stats (processTask (task_example ''b'' ''factorial'' (- 1)) (new_Worker 0 1))) = 1 \<and>
   tasks_completed (stats (processTask (task_example ''b'' ''factorial'' (- 1)) (new_Worker 0 1))) = 0 \<and>
   tasks_failed (stats (processTask (task_example ''b'' ''factorial'' (- 1)) (new_Worker 0 1))) = 1"
proof -
  have a: "execute_calculation (operation (data (task_example ''a'' ''factorial'' 5)))
             (input (data (task_example ''a'' ''factorial'' 5))) = Inr ''120''"
    using execute_factorial_5 by (simp add: task_example_def new_Task_def)
  have b: "execute_calculation (operation (data (task_example ''b'' ''factorial'' (- 1))))
             (input (data (task_example ''b'' ''factorial'' (- 1))))
           = Inl (invalid_argument ''Invalid operation or input'')"
    using execute_factorial_neg by (simp add: task_example_def new_Task_def)
  have ia: "task_id (task_example ''a'' ''factorial'' 5) = ''a''"
    and ib: "task_id (task_example ''b'' ''factorial'' (- 1)) = ''b''"
    by (simp_all add: task_example_def new_Task_def)
  have s0: "stats (new_Worker 0 1) = \<lparr>tasks_processed = 0, tasks_completed = 0, tasks_failed = 0\<rparr>"
    by (simp add: new_Worker_def)
  have wa: "what (invalid_argument ''Invalid operation or input'') = ''Invalid operation or input''"
    by (simp add: what_def)
  show ?thesis
    using processTask_contract [of "task_example ''a'' ''factorial'' 5" "new_Worker 0 1",
        THEN conjunct2]
      processTask_contract [of "task_example ''b'' ''factorial'' (- 1)" "new_Worker 0 1",
        THEN conjunct2]
      a b
    by (simp add: ia ib s0 wa)
qed

text \<open>
  Claim C2 as stated asks for an increment of the completed counter on a
  successful calculation; the counter is still 0 after the task of the
  example has been processed with success.
\<close>

theorem processTask_completed_counterexample:
  "execute_calculation ''factorial'' 5 = Inr ''120'' \<and>
   tasks_processed (stats (processTaskLoop
      (addTask (task_example ''a'' ''factorial'' 5) (new_Worker 0 1)))) = 1 \<and>
   tasks_completed (stats (processTaskLoop
      (addTask (task_example ''a'' ''factorial'' 5) (new_Worker 0 1)))) \<noteq>
   tasks_completed (stats (addTask (task_example ''a'' ''factorial'' 5) (new_Worker 0 1))) + 1"
proof -
  have "stats (processTaskLoop (addTask (task_example ''a'' ''factorial'' 5) (new_Worker 0 1)))
          = \<lparr>tasks_processed = 1, tasks_completed = 0, tasks_failed = 0\<rparr>"
    by code_simp
  moreover have "stats (addTask (task_example ''a'' ''factorial'' 5) (new_Worker 0 1))
          = \<lparr>tasks_processed = 0, tasks_completed = 0, tasks_failed = 0\<rparr>"
    by code_simp
  ultimately show ?thesis using execute_factorial_5 by simp
qed

section \<open>A failed calculation\<close>




section \<open>Creating a task\<close>

lemma validateTaskInput_iff:
  "validateTaskInput task \<longleftrightarrow>
     isValid task \<and>
     operation (data task) \<in> {''factorial'', ''fibonacci'', ''prime_check''} \<and>
     (operation (data task) = ''factorial'' \<longrightarrow> 0 \<le> input (data task) \<and> input (data task) \<le> 20) \<and>
     (operation (data task) = ''fibonacci'' \<longrightarrow> 0 \<le> input (data task) \<and> input (data task) \<le> 1000) \<and>
     (operation (data task) = ''prime_check'' \<longrightarrow> 2 \<le> input (data task))"
  unfolding validateTaskInput_def by auto

lemma createTask_invalid:
  "\<not> validateTaskInput task \<Longrightarrow>
     createTask task orc = (Inl (invalid_argument ''Invalid task input''), orc)"
  by (simp add: createTask_def)

lemma createTask_valid:
  assumes "validateTaskInput task" "workers orc \<noteq> []"
  shows "createTask task orc =
           (Inr (task_id task),
            orc\<lparr>current_worker := current_worker orc + 1,
                workers := (workers orc)
                  [unat (current_worker orc) mod length (workers orc) :=
                     addTask task (workers orc ! (unat (current_worker orc) mod length (workers orc)))]\<rparr>)"
  using assms by (simp add: createTask_def distributeTask_def selectWorker_def)

lemma createTask_no_worker:
  assumes "validateTaskInput task" "workers orc = []"
  shows "createTask task orc = (Inl (runtime_error ''No workers available''), orc)"
  using assms by (simp add: createTask_def distributeTask_def)

text \<open>
  Claim C6. \<open>createTask\<close> has three outcomes. It throws the validation
  error exactly when \<open>isValid\<close> fails or the orchestrator's own check of
  the operation and of the bounds of the input fails, and then the
  orchestrator is as it was (no worker holds the task, the round-robin
  counter has not moved). For a task that passes both checks and an
  orchestrator without workers it throws the runtime error
  \<^verbatim>\<open>No workers available\<close>, again with nothing changed. For a task that passes
  both checks and an orchestrator with at least one worker it returns the
  task's id after one worker has received the task (appended to its queue
  and stored under its id) while every other worker is as before; the id is
  returned in no other case.
\<close>

theorem createTask_contract:
  "(validateTaskInput task \<longleftrightarrow>
      isValid task \<and>
      operation (data task) \<in> {''factorial'', ''fibonacci'', ''prime_check''} \<and>
      (operation (data task) = ''factorial'' \<longrightarrow>
         0 \<le> input (data task) \<and> input (data task) \<le> 20) \<and>
      (operation (data task) = ''fibonacci'' \<longrightarrow>
         0 \<le> input (data task) \<and> input (data task) \<le> 1000) \<and>
      (operation (data task) = ''prime_check'' \<longrightarrow> 2 \<le> input (data task))) \<and>
   (fst (createTask task orc) = Inl (invalid_argument ''Invalid task input'') \<longleftrightarrow>
      \<not> validateTaskInput task) \<and>
   (\<not> validateTaskInput task \<longrightarrow>
      createTask task orc = (Inl (invalid_argument ''Invalid task input''), orc)) \<and>
   (validateTaskInput task \<and> workers orc = [] \<longrightarrow>
      createTask task orc = (Inl (runtime_error ''No workers available''), orc)) \<and>
   (fst (createTask task orc) = Inr (task_id task) \<longleftrightarrow>
      validateTaskInput task \<and> workers orc \<noteq> []) \<and>
   (fst (createTask task orc) = Inr (task_id task) \<longrightarrow>
      (\<exists>i<length (workers orc).
         snd (createTask task orc) =
           orc\<lparr>current_worker := current_worker orc + 1,
               workers := (workers orc)[i := addTask task (workers orc ! i)]\<rparr> \<and>
         task_queue (workers (snd (createTask task orc)) ! i)
           = task_queue (workers orc ! i) @ [task] \<and>
         getTask (task_id task) (workers (snd (createTask task orc)) ! i) = Some task \<and>
         (\<forall>j<length (workers orc). j \<noteq> i \<longrightarrow>
            workers (snd (createTask task orc)) ! j = workers orc ! j)))"
proof -
  note v = validateTaskInput_iff [of task]
  consider (bad) "\<not> validateTaskInput task"
    | (none) "validateTaskInput task" "workers orc = []"
    | (good) "validateTaskInput task" "workers orc \<noteq> []"
    by blast
  then show ?thesis
  proof cases
    case bad
    show ?thesis
      by (rule conjI, rule v, simp add: bad createTask_invalid)
  next
    case none
    show ?thesis
      by (rule conjI, rule v, simp add: none createTask_no_worker)
  next
    case good
    define i where "i = unat (current_worker orc) mod length (workers orc)"
    have i: "i < length (workers orc)" unfolding i_def using good by simp
    have c: "createTask task orc =
               (Inr (task_id task),
                orc\<lparr>current_worker := current_worker orc + 1,
                    workers := (workers orc)[i := addTask task (workers orc ! i)]\<rparr>)"
      unfolding i_def using good by (rule createTask_valid)
    have "snd (createTask task orc) =
                   orc\<lparr>current_worker := current_worker orc + 1,
                       workers := (workers orc)[i := addTask task (workers orc ! i)]\<rparr> \<and>
                 task_queue (workers (snd (createTask task orc)) ! i)
                   = task_queue (workers orc ! i) @ [task] \<and>
                 getTask (task_id task) (workers (snd (createTask task orc)) ! i) = Some task \<and>
                 (\<forall>j<length (workers orc). j \<noteq> i \<longrightarrow>
                    workers (snd (createTask task orc)) ! j = workers orc ! j)"
      using i by (simp add: c addTask_def getTask_def getTask_update)
    then have "\<exists>i<length (workers orc).
                 snd (createTask task orc) =
                   orc\<lparr>current_worker := current_worker orc + 1,
                       workers := (workers orc)[i := addTask task (workers orc ! i)]\<rparr> \<and>
                 task_queue (workers (snd (createTask task orc)) ! i)
                   = task_queue (workers orc ! i) @ [task] \<and>
                 getTask (task_id task) (workers (snd (createTask task orc)) ! i) = Some task \<and>
                 (\<forall>j<length (workers orc). j \<noteq> i \<longrightarrow>
                    workers (snd (createTask task orc)) ! j = workers orc ! j)"
      using i by blast
    moreover have "fst (createTask task orc) = Inr (task_id task)" by (simp add: c)
    ultimately have "fst (createTask task orc) = Inr (task_id task) \<and>
        (\<exists>i<length (workers orc).
                 snd (createTask task orc) =
                   orc\<lparr>current_worker := current_worker orc + 1,
                       workers := (workers orc)[i := addTask task (workers orc ! i)]\<rparr> \<and>
                 task_queue (workers (snd (createTask task orc)) ! i)
                   = task_queue (workers orc ! i) @ [task] \<and>
                 getTask (task_id task) (workers (snd (createTask task orc)) ! i) = Some task \<and>
                 (\<forall>j<length (workers orc). j \<noteq> i \<longrightarrow>
                    workers (snd (createTask task orc)) ! j = workers orc ! j))"
      by blast
    then have "fst (createTask task orc) \<noteq> Inl (invalid_argument ''Invalid task input'') \<and>
        fst (createTask task orc) = Inr (task_id task) \<and>
        (\<exists>i<length (workers orc).
                 snd (createTask task orc) =
                   orc\<lparr>current_worker := current_worker orc + 1,
                       workers := (workers orc)[i := addTask task (workers orc ! i)]\<rparr> \<and>
                 task_queue (workers (snd (createTask task orc)) ! i)
                   = task_queue (workers orc ! i) @ [task] \<and>
                 getTask (task_id task) (workers (snd (createTask task orc)) ! i) = Some task \<and>
                 (\<forall>j<length (workers orc). j \<noteq> i \<longrightarrow>
                    workers (snd (createTask task orc)) ! j = workers orc ! j))"
      by simp
    then show ?thesis
      apply -
      apply (rule conjI)
       apply (rule v)
      apply (simp add: good)
      done
  qed
qed

lemma new_TaskOrchestrator_example:
  "new_TaskOrchestrator (config_example 2) =
     Inr \<lparr>config = config_example 2, workers = [new_Worker 0 4, new_Worker 1 4],
          current_worker = 0,
          system_stats = \<lparr>total_tasks_processed = 0, total_tasks_completed = 0,
                          total_tasks_failed = 0, total_workers = 2\<rparr>\<rparr>"
  by (simp add: new_TaskOrchestrator_def config_example_def upt_rec numeral_2_eq_2)

theorem createTask_contract_witness:
  "createTask (task_example ''a'' ''factorial'' 21)
     \<lparr>config = config_example 2, workers = [new_Worker 0 4, new_Worker 1 4],
      current_worker = 1,
      system_stats = \<lparr>total_tasks_processed = 0, total_tasks_completed = 0,
                      total_tasks_failed = 0, total_workers = 2\<rparr>\<rparr>
   = (Inl (invalid_argument ''Invalid task input''),
      \<lparr>config = config_example 2, workers = [new_Worker 0 4, new_Worker 1 4],
       current_worker = 1,
       system_stats = \<lparr>total_tasks_processed = 0, total_tasks_completed = 0,
                       total_tasks_failed = 0, total_workers = 2\<rparr>\<rparr>) \<and>
   createTask (task_example ''a'' ''factorial'' 20)
     \<lparr>config = config_example 2, workers = [new_Worker 0 4, new_Worker 1 4],
      current_worker = 1,
      system_stats = \<lparr>total_tasks_processed = 0, total_tasks_completed = 0,
                      total_tasks_failed = 0, total_workers = 2\<rparr>\<rparr>
   = (Inr ''a'',
      \<lparr>config = config_example 2,
       workers = [new_Worker 0 4, addTask (task_example ''a'' ''factorial'' 20) (new_Worker 1 4)],
       current_worker = 2,
       system_stats = \<lparr>total_tasks_processed = 0, total_tasks_completed = 0,
                       total_tasks_failed = 0, total_workers = 2\<rparr>\<rparr>)"
proof -
  define orc where "orc =
     \<lparr>config = config_example 2, workers = [new_Worker 0 4, new_Worker 1 4],
      current_worker = 1 :: 64 word,
      system_stats = \<lparr>total_tasks_processed = 0, total_tasks_completed = 0,
                      total_tasks_failed = 0, total_workers = 2\<rparr>\<rparr>"
  have ne: "workers orc \<noteq> []" by (simp add: orc_def)
  have v1: "\<not> isValid (task_example ''a'' ''factorial'' 21)"
    and v2: "isValid (task_example ''a'' ''factorial'' 20)"
    by (simp_all add: isValid_def task_example_def new_Task_def)
  have d: "operation (data (task_example ''a'' ''factorial'' 21)) = ''factorial''"
      "operation (data (task_example ''a'' ''factorial'' 20)) = ''factorial''"
      "input (data (task_example ''a'' ''factorial'' 20)) = 20"
      "task_id (task_example ''a'' ''factorial'' 20) = ''a''"
      "task_id (task_example ''a'' ''factorial'' 21) = ''a''"
    by (simp_all add: task_example_def new_Task_def)
  have bad: "createTask (task_example ''a'' ''factorial'' 21) orc
               = (Inl (invalid_argument ''Invalid task input''), orc)"
    using createTask_contract [of "task_example ''a'' ''factorial'' 21" orc] v1 by simp
  have ok: "fst (createTask (task_example ''a'' ''factorial'' 20) orc) = Inr ''a''"
    using createTask_contract [of "task_example ''a'' ''factorial'' 20" orc] v2 d ne by simp
  have "snd (createTask (task_example ''a'' ''factorial'' 20) orc) =
          orc\<lparr>current_worker := 2,
              workers := [new_Worker 0 4,
                          addTask (task_example ''a'' ''factorial'' 20) (new_Worker 1 4)]\<rparr>"
    by (simp add: createTask_valid validateTaskInput_def v2 d orc_def)
  with ok have "createTask (task_example ''a'' ''factorial'' 20) orc =
          (Inr ''a'', orc\<lparr>current_worker := 2,
              workers := [new_Worker 0 4,
                          addTask (task_example ''a'' ''factorial'' 20) (new_Worker 1 4)]\<rparr>)"
    by (simp add: prod_eq_iff)
  with bad show ?thesis by (simp add: orc_def)
qed

text \<open>
  An orchestrator built from a configuration with zero workers has an empty
  worker list. A task that passes \<open>isValid\<close> and the orchestrator's check
  is then neither rejected with the validation error nor accepted: the call
  ends with the runtime error of \<open>distributeTask\<close>.
\<close>

theorem createTask_no_worker_counterexample:
  "new_TaskOrchestrator (config_example 0) =
     Inr \<lparr>config = config_example 0, workers = [], current_worker = 0,
          system_stats = \<lparr>total_tasks_processed = 0, total_tasks_completed = 0,
                          total_tasks_failed = 0, total_workers = 0\<rparr>\<rparr> \<and>
   isValid (task_example ''a'' ''factorial'' 5) \<and>
   validateTaskInput (task_example ''a'' ''factorial'' 5) \<and>
   createTask (task_example ''a'' ''factorial'' 5)
     \<lparr>config = config_example 0, workers = [], current_worker = 0,
      system_stats = \<lparr>total_tasks_processed = 0, total_tasks_completed = 0,
                      total_tasks_failed = 0, total_workers = 0\<rparr>\<rparr>
   = (Inl (runtime_error ''No workers available''),
      \<lparr>config = config_example 0, workers = [], current_worker = 0,
       system_stats = \<lparr>total_tasks_processed = 0, total_tasks_completed = 0,
                       total_tasks_failed = 0, total_workers = 0\<rparr>\<rparr>)"
  by (simp add: new_TaskOrchestrator_def config_example_def createTask_def distributeTask_def
      validateTaskInput_def isValid_def task_example_def new_Task_def)

section \<open>A payload that carries its own status\<close>

lemma Task_from_json_example: "Task_from_json payload_example 0 = Inr injected_example"
  by code_simp

lemma injected_example_fields:
  "task_id injected_example = ''x''" "status injected_example = PROCESSING"
  "result injected_example = ''42''" "validateTaskInput injected_example"
  by (simp_all add: injected_example_def task_example_def new_Task_def validateTaskInput_def
      isValid_def)

lemma Task_from_json_Inr: "Task_from_json j now = Inr t \<longleftrightarrow> Task_try j now = Inr t"
  by (simp add: Task_from_json_def split: sum.splits)

lemma and_then_Inr: "and_then r f = Inr y \<longleftrightarrow> (\<exists>v. r = Inr v \<and> f v = Inr y)"
  by (cases r) (simp_all add: and_then_def)

lemma get_string_Inr: "get_string v = Inr s \<longleftrightarrow> v = JString s"
  by (cases v) (simp_all add: get_string_def)

lemma supplied_contains:
  "at j k = Inr (JString s) \<Longrightarrow> contains j k \<and> supplied j k = Some s"
  by (cases j) (auto simp add: at_def contains_def supplied_def split: option.splits)

lemma supplied_absent: "\<not> contains j k \<Longrightarrow> supplied j k = None"
  by (cases j) (auto simp add: at_def contains_def supplied_def split: option.splits)

text \<open>What a successful \<open>Task_from_json\<close> has read: the four leading fields
  make the constructor's task, and the three optional fields are set on it
  in turn.\<close>

lemma Task_try_shape:
  assumes "Task_try j now = Inr t"
  shows "\<exists>i ti p d.
           and_then (at j ''id'') get_string = Inr i \<and>
           and_then (at j ''title'') get_string = Inr ti \<and>
           (if contains j ''priority''
            then and_then (and_then (at j ''priority'') get_int) (\<lambda>priority_value.
                   Inr (if priority_value \<ge> 1 \<and> priority_value \<le> 3
                        then priority_of_int priority_value else MEDIUM))
            else Inr MEDIUM) = Inr p \<and>
           and_then (at j ''data'')
              (\<lambda>dj. case TaskData_from_json dj of Inl e \<Rightarrow> Inl (what e) | Inr d \<Rightarrow> Inr d) = Inr d \<and>
           (contains j ''status'' \<longrightarrow> (\<exists>s. at j ''status'' = Inr (JString s))) \<and>
           (contains j ''result'' \<longrightarrow> (\<exists>s. at j ''result'' = Inr (JString s))) \<and>
           (contains j ''error'' \<longrightarrow> (\<exists>s. at j ''error'' = Inr (JString s))) \<and>
           t = (new_Task i ti p d now)
                 \<lparr>status := (case supplied j ''status'' of
                               Some s \<Rightarrow> stringToTaskStatus s | None \<Rightarrow> PENDING),
                  result := (case supplied j ''result'' of Some r \<Rightarrow> r | None \<Rightarrow> []),
                  error_message := (case supplied j ''error'' of Some e \<Rightarrow> e | None \<Rightarrow> [])\<rparr>"
proof -
  from assms obtain i ti p d t1 t2 where
      i: "and_then (at j ''id'') get_string = Inr i"
    and ti: "and_then (at j ''title'') get_string = Inr ti"
    and p: "(if contains j ''priority''
            then and_then (and_then (at j ''priority'') get_int) (\<lambda>priority_value.
                   Inr (if priority_value \<ge> 1 \<and> priority_value \<le> 3
                        then priority_of_int priority_value else MEDIUM))
            else Inr MEDIUM) = Inr p"
    and d: "and_then (at j ''data'')
              (\<lambda>dj. case TaskData_from_json dj of Inl e \<Rightarrow> Inl (what e) | Inr d \<Rightarrow> Inr d) = Inr d"
    and t1: "(if contains j ''status''
               then and_then (and_then (at j ''status'') get_string) (\<lambda>s.
                      Inr ((new_Task i ti p d now)\<lparr>status := stringToTaskStatus s\<rparr>))
               else Inr (new_Task i ti p d now)) = Inr t1"
    and t2: "(if contains j ''result''
               then and_then (and_then (at j ''result'') get_string) (\<lambda>r.
                      Inr (t1\<lparr>result := r\<rparr>))
               else Inr t1) = Inr t2"
    and t: "(if contains j ''error''
             then and_then (and_then (at j ''error'') get_string) (\<lambda>e.
                    Inr (t2\<lparr>error_message := e\<rparr>))
             else Inr t2) = Inr t"
    unfolding Task_try_def and_then_Inr by blast
  have s1: "(contains j ''status'' \<longrightarrow> (\<exists>s. at j ''status'' = Inr (JString s))) \<and>
            t1 = (new_Task i ti p d now)
                   \<lparr>status := (case supplied j ''status'' of
                                 Some s \<Rightarrow> stringToTaskStatus s | None \<Rightarrow> PENDING)\<rparr>"
  proof (cases "contains j ''status''")
    case True
    with t1 obtain s where "at j ''status'' = Inr (JString s)"
        "t1 = (new_Task i ti p d now)\<lparr>status := stringToTaskStatus s\<rparr>"
      by (auto simp add: and_then_Inr get_string_Inr)
    then show ?thesis using supplied_contains [of j "''status''" s] by simp
  next
    case False
    with t1 have "t1 = new_Task i ti p d now" by simp
    then show ?thesis using False by (simp add: supplied_absent new_Task_def)
  qed
  have s2: "(contains j ''result'' \<longrightarrow> (\<exists>s. at j ''result'' = Inr (JString s))) \<and>
            t2 = t1\<lparr>result := (case supplied j ''result'' of Some r \<Rightarrow> r | None \<Rightarrow> [])\<rparr>"
  proof (cases "contains j ''result''")
    case True
    with t2 obtain s where "at j ''result'' = Inr (JString s)" "t2 = t1\<lparr>result := s\<rparr>"
      by (auto simp add: and_then_Inr get_string_Inr)
    then show ?thesis using supplied_contains [of j "''result''" s] by simp
  next
    case False
    with t2 have "t2 = t1" by simp
    then show ?thesis using False s1 by (simp add: supplied_absent new_Task_def)
  qed
  have s3: "(contains j ''error'' \<longrightarrow> (\<exists>s. at j ''error'' = Inr (JString s))) \<and>
            t = t2\<lparr>error_message := (case supplied j ''error'' of Some e \<Rightarrow> e | None \<Rightarrow> [])\<rparr>"
  proof (cases "contains j ''error''")
    case True
    with t obtain s where "at j ''error'' = Inr (JString s)" "t = t2\<lparr>error_message := s\<rparr>"
      by (auto simp add: and_then_Inr get_string_Inr)
    then show ?thesis using supplied_contains [of j "''error''" s] by simp
  next
    case False
    with t have "t = t2" by simp
    then show ?thesis using False s1 s2 by (simp add: supplied_absent new_Task_def)
  qed
  from s1 s2 s3 have "t = (new_Task i ti p d now)
                 \<lparr>status := (case supplied j ''status'' of
                               Some s \<Rightarrow> stringToTaskStatus s | None \<Rightarrow> PENDING),
                  result := (case supplied j ''result'' of Some r \<Rightarrow> r | None \<Rightarrow> []),
                  error_message := (case supplied j ''error'' of Some e \<Rightarrow> e | None \<Rightarrow> [])\<rparr>"
    by simp
  with i ti p d s1 s2 s3 show ?thesis by blast
qed

lemma Task_from_json_installs:
  assumes "Task_from_json j now = Inr t"
  shows "status t = (case supplied j ''status'' of
                       Some s \<Rightarrow> stringToTaskStatus s | None \<Rightarrow> PENDING)"
    and "result t = (case supplied j ''result'' of Some r \<Rightarrow> r | None \<Rightarrow> [])"
    and "error_message t = (case supplied j ''error'' of Some e \<Rightarrow> e | None \<Rightarrow> [])"
  using Task_try_shape [of j now t] assms by (auto simp add: Task_from_json_Inr)

lemma at_extended:
  "k \<notin> {''status'', ''result'', ''error''} \<Longrightarrow>
     at (JObject ((''status'', a) # (''result'', b) # (''error'', c) # kvs)) k
       = at (JObject kvs) k"
  by (simp add: at_def)

lemma contains_extended:
  "k \<notin> {''status'', ''result'', ''error''} \<Longrightarrow>
     contains (JObject ((''status'', a) # (''result'', b) # (''error'', c) # kvs)) k
       = contains (JObject kvs) k"
  by (simp add: contains_def)

text \<open>Putting the three fields in front of the members of an accepted
  payload gives an accepted payload whose task carries them.\<close>

lemma Task_from_json_extended:
  assumes "Task_from_json (JObject kvs) now = Inr t"
  shows "Task_from_json
           (JObject ((''status'', JString s) # (''result'', JString r) # (''error'', JString e) # kvs))
           now
         = Inr (t\<lparr>status := stringToTaskStatus s, result := r, error_message := e\<rparr>)"
proof -
  define j' where
    "j' = JObject ((''status'', JString s) # (''result'', JString r) # (''error'', JString e) # kvs)"
  from assms obtain i ti p d where
      i: "and_then (at (JObject kvs) ''id'') get_string = Inr i"
    and ti: "and_then (at (JObject kvs) ''title'') get_string = Inr ti"
    and p: "(if contains (JObject kvs) ''priority''
            then and_then (and_then (at (JObject kvs) ''priority'') get_int) (\<lambda>priority_value.
                   Inr (if priority_value \<ge> 1 \<and> priority_value \<le> 3
                        then priority_of_int priority_value else MEDIUM))
            else Inr MEDIUM) = Inr p"
    and d: "and_then (at (JObject kvs) ''data'')
              (\<lambda>dj. case TaskData_from_json dj of Inl e \<Rightarrow> Inl (what e) | Inr d \<Rightarrow> Inr d) = Inr d"
    and t: "t = (new_Task i ti p d now)
                 \<lparr>status := (case supplied (JObject kvs) ''status'' of
                               Some s \<Rightarrow> stringToTaskStatus s | None \<Rightarrow> PENDING),
                  result := (case supplied (JObject kvs) ''result'' of Some r \<Rightarrow> r | None \<Rightarrow> []),
                  error_message :=
                    (case supplied (JObject kvs) ''error'' of Some e \<Rightarrow> e | None \<Rightarrow> [])\<rparr>"
    using Task_try_shape [of "JObject kvs" now t] by (auto simp add: Task_from_json_Inr)
  have a: "at j' ''id'' = at (JObject kvs) ''id''" "at j' ''title'' = at (JObject kvs) ''title''"
      "at j' ''priority'' = at (JObject kvs) ''priority''"
      "at j' ''data'' = at (JObject kvs) ''data''"
      "contains j' ''priority'' = contains (JObject kvs) ''priority''"
    unfolding j'_def by (simp_all add: at_extended contains_extended)
  have b: "contains j' ''status''" "contains j' ''result''" "contains j' ''error''"
      "at j' ''status'' = Inr (JString s)" "at j' ''result'' = Inr (JString r)"
      "at j' ''error'' = Inr (JString e)"
    unfolding j'_def by (simp_all add: at_def contains_def)
  have "Task_try j' now =
          Inr ((new_Task i ti p d now)
                 \<lparr>status := stringToTaskStatus s, result := r, error_message := e\<rparr>)"
    unfolding Task_try_def a i ti p d by (simp add: b and_then_def get_string_def)
  then show ?thesis
    unfolding j'_def [symmetric] by (simp add: Task_from_json_Inr t)
qed

lemma validation_ignores_status:
  "isValid (t\<lparr>status := st, result := r, error_message := e\<rparr>) = isValid t"
  "validateTaskInput (t\<lparr>status := st, result := r, error_message := e\<rparr>) = validateTaskInput t"
  by (simp_all add: validateTaskInput_def isValid_def)

lemma completeTask_workers_reaches:
  assumes "i < length ws" "fst (completeTask k (ws ! i))"
  shows "fst (completeTask_workers k ws)"
  using assms
proof (induction ws arbitrary: i)
  case Nil
  then show ?case by simp
next
  case (Cons w ws)
  show ?case
  proof (cases i)
    case 0
    with Cons.prems show ?thesis by (simp add: split_beta)
  next
    case (Suc n)
    with Cons.prems have "fst (completeTask_workers k ws)"
      using Cons.IH [of n] by simp
    then show ?thesis by (simp add: split_beta)
  qed
qed

text \<open>A task that arrives with the status PROCESSING and a result is stored
  as it is, and the worker completes it while it is still queued.\<close>

lemma injected_completes:
  assumes "validateTaskInput t" "workers orc \<noteq> []" "status t = PROCESSING" "result t \<noteq> []"
  shows "fst (createTask t orc) = Inr (task_id t)"
    and "getTask (task_id t)
           (workers (snd (createTask t orc)) ! (unat (current_worker orc) mod length (workers orc)))
         = Some t"
    and "completeTask (task_id t)
           (workers (snd (createTask t orc)) ! (unat (current_worker orc) mod length (workers orc)))
         = (True,
            (workers orc ! (unat (current_worker orc) mod length (workers orc)))
              \<lparr>task_queue :=
                 task_queue (workers orc ! (unat (current_worker orc) mod length (workers orc)))
                 @ [t],
               task_storage :=
                 AList.update (task_id t) (t\<lparr>status := COMPLETED\<rparr>)
                   (task_storage
                      (workers orc ! (unat (current_worker orc) mod length (workers orc)))),
               stats :=
                 (stats (workers orc ! (unat (current_worker orc) mod length (workers orc))))
                   \<lparr>tasks_completed :=
                      tasks_completed
                        (stats (workers orc ! (unat (current_worker orc) mod length (workers orc))))
                      + 1\<rparr>\<rparr>)"
    and "fst (TaskOrchestrator_completeTask (task_id t) (snd (createTask t orc)))"
proof -
  define i where "i = unat (current_worker orc) mod length (workers orc)"
  have i: "i < length (workers orc)" unfolding i_def using assms by simp
  have c: "createTask t orc =
             (Inr (task_id t),
              orc\<lparr>current_worker := current_worker orc + 1,
                  workers := (workers orc)[i := addTask t (workers orc ! i)]\<rparr>)"
    unfolding i_def using assms(1,2) by (rule createTask_valid)
  have w: "workers (snd (createTask t orc)) ! i = addTask t (workers orc ! i)"
    using i by (simp add: c)
  show "fst (createTask t orc) = Inr (task_id t)" by (simp add: c)
  show "getTask (task_id t)
          (workers (snd (createTask t orc)) ! (unat (current_worker orc) mod length (workers orc)))
        = Some t"
    unfolding i_def [symmetric] w by (simp add: addTask_def getTask_def getTask_update)
  show d: "completeTask (task_id t)
           (workers (snd (createTask t orc)) ! (unat (current_worker orc) mod length (workers orc)))
         = (True,
            (workers orc ! (unat (current_worker orc) mod length (workers orc)))
              \<lparr>task_queue :=
                 task_queue (workers orc ! (unat (current_worker orc) mod length (workers orc)))
                 @ [t],
               task_storage :=
                 AList.update (task_id t) (t\<lparr>status := COMPLETED\<rparr>)
                   (task_storage
                      (workers orc ! (unat (current_worker orc) mod length (workers orc)))),
               stats :=
                 (stats (workers orc ! (unat (current_worker orc) mod length (workers orc))))
                   \<lparr>tasks_completed :=
                      tasks_completed
                        (stats (workers orc ! (unat (current_worker orc) mod length (workers orc))))
                      + 1\<rparr>\<rparr>)"
    unfolding i_def [symmetric] w using assms(3,4)
    by (simp add: addTask_def completeTask_def getTask_update)
  have "fst (completeTask (task_id t) (workers (snd (createTask t orc)) ! i))"
    using d unfolding i_def [symmetric] by simp
  moreover have "i < length (workers (snd (createTask t orc)))" using i by (simp add: c)
  ultimately have "fst (completeTask_workers (task_id t) (workers (snd (createTask t orc))))"
    by (rule completeTask_workers_reaches [rotated])
  then show "fst (TaskOrchestrator_completeTask (task_id t) (snd (createTask t orc)))"
    by (simp add: TaskOrchestrator_completeTask_def split_beta)
qed

text \<open>
  Claim C10. A task read by \<open>Task_from_json\<close> has the status, the result
  and the error message that the payload supplies (and the constructor's
  where it supplies none), and every accepted payload can be given the three
  fields. \<open>isValid\<close> and \<open>validateTaskInput\<close> do not depend on them. So a
  task with status PROCESSING and a non-empty result that passes the
  validation is accepted by \<open>createTask\<close> and stored as it is, and
  \<open>completeTask\<close> succeeds on it at once: the stored task becomes
  COMPLETED and the completed counter is incremented, while the task is
  still at the end of the worker's queue and the processed counter has not
  moved. \<open>payload_example\<close> is such a payload.
\<close>

theorem injected_status_completes:
  "(Task_from_json j now = Inr t \<longrightarrow>
      status t = (case supplied j ''status'' of
                    Some s \<Rightarrow> stringToTaskStatus s | None \<Rightarrow> PENDING) \<and>
      result t = (case supplied j ''result'' of Some r \<Rightarrow> r | None \<Rightarrow> []) \<and>
      error_message t = (case supplied j ''error'' of Some e \<Rightarrow> e | None \<Rightarrow> [])) \<and>
   (Task_from_json (JObject kvs) now = Inr t \<longrightarrow>
      Task_from_json
        (JObject ((''status'', JString s) # (''result'', JString r) # (''error'', JString e) # kvs))
        now
      = Inr (t\<lparr>status := stringToTaskStatus s, result := r, error_message := e\<rparr>)) \<and>
   isValid (t\<lparr>status := st, result := r, error_message := e\<rparr>) = isValid t \<and>
   validateTaskInput (t\<lparr>status := st, result := r, error_message := e\<rparr>) = validateTaskInput t \<and>
   (validateTaskInput t \<and> workers orc \<noteq> [] \<and> status t = PROCESSING \<and> result t \<noteq> [] \<longrightarrow>
      fst (createTask t orc) = Inr (task_id t) \<and>
      getTask (task_id t)
        (workers (snd (createTask t orc)) ! (unat (current_worker orc) mod length (workers orc)))
      = Some t \<and>
      completeTask (task_id t)
        (workers (snd (createTask t orc)) ! (unat (current_worker orc) mod length (workers orc)))
      = (True,
         (workers orc ! (unat (current_worker orc) mod length (workers orc)))
           \<lparr>task_queue :=
              task_queue (workers orc ! (unat (current_worker orc) mod length (workers orc)))
              @ [t],
            task_storage :=
              AList.update (task_id t) (t\<lparr>status := COMPLETED\<rparr>)
                (task_storage
                   (workers orc ! (unat (current_worker orc) mod length (workers orc)))),
            stats :=
              (stats (workers orc ! (unat (current_worker orc) mod length (workers orc))))
                \<lparr>tasks_completed :=
                   tasks_completed
                     (stats (workers orc ! (unat (current_worker orc) mod length (workers orc))))
                   + 1\<rparr>\<rparr>) \<and>
      fst (TaskOrchestrator_completeTask (task_id t) (snd (createTask t orc)))) \<and>
   Task_from_json payload_example 0 = Inr injected_example \<and>
   validateTaskInput injected_example \<and>
   status injected_example = PROCESSING \<and> result injected_example = ''42''"
  using Task_from_json_installs [of j now t]
    Task_from_json_extended [where kvs = kvs and now = now and t = t and s = s and r = r and e = e]
    validation_ignores_status [where t = t and st = st and r = r and e = e]
    injected_completes [of t orc]
    Task_from_json_example injected_example_fields
  by blast

theorem injected_status_completes_witness:
  "Task_from_json payload_example 0 = Inr injected_example \<and>
   supplied payload_example ''status'' = Some ''processing'' \<and>
   supplied payload_example ''result'' = Some ''42'' \<and>
   supplied payload_example ''error'' = None \<and>
   status injected_example = PROCESSING \<and> result injected_example = ''42'' \<and>
   error_message injected_example = [] \<and>
   validateTaskInput injected_example \<and>
   new_TaskOrchestrator (config_example 2) =
     Inr \<lparr>config = config_example 2, workers = [new_Worker 0 4, new_Worker 1 4],
          current_worker = 0,
          system_stats = \<lparr>total_tasks_processed = 0, total_tasks_completed = 0,
                          total_tasks_failed = 0, total_workers = 2\<rparr>\<rparr> \<and>
   fst (createTask injected_example
     \<lparr>config = config_example 2, workers = [new_Worker 0 4, new_Worker 1 4],
      current_worker = 0,
      system_stats = \<lparr>total_tasks_processed = 0, total_tasks_completed = 0,
                      total_tasks_failed = 0, total_workers = 2\<rparr>\<rparr>) = Inr ''x'' \<and>
   completeTask ''x''
     (workers (snd (createTask injected_example
        \<lparr>config = config_example 2, workers = [new_Worker 0 4, new_Worker 1 4],
         current_worker = 0,
         system_stats = \<lparr>total_tasks_processed = 0, total_tasks_completed = 0,
                         total_tasks_failed = 0, total_workers = 2\<rparr>\<rparr>)) ! 0)
   = (True,
      \<lparr>worker_id = 0, thread_count = 4, task_queue = [injected_example],
       task_storage = [(''x'', injected_example\<lparr>status := COMPLETED\<rparr>)],
       stats = \<lparr>tasks_processed = 0, tasks_completed = 1, tasks_failed = 0\<rparr>\<rparr>)"
proof -
  define orc0 where "orc0 =
     \<lparr>config = config_example 2, workers = [new_Worker 0 4, new_Worker 1 4],
      current_worker = 0 :: 64 word,
      system_stats = \<lparr>total_tasks_processed = 0, total_tasks_completed = 0,
                      total_tasks_failed = 0, total_workers = 2\<rparr>\<rparr>"
  have p: "Task_from_json payload_example 0 = Inr injected_example"
    by (rule Task_from_json_example)
  have sup: "supplied payload_example ''status'' = Some ''processing''"
      "supplied payload_example ''result'' = Some ''42''"
      "supplied payload_example ''error'' = None"
    by (simp_all add: supplied_def at_def payload_example_def)
  have hyp: "validateTaskInput injected_example \<and> workers orc0 \<noteq> [] \<and>
             status injected_example = PROCESSING \<and> result injected_example \<noteq> []"
    by (simp add: injected_example_fields orc0_def)
  have i0: "unat (current_worker orc0) mod length (workers orc0) = 0" "workers orc0 ! 0 = new_Worker 0 4"
    by (simp_all add: orc0_def)
  note main = injected_status_completes
    [of payload_example 0 injected_example "[]" "[]" "[]" "[]" PROCESSING orc0]
  have f: "status injected_example = stringToTaskStatus ''processing'' \<and>
           result injected_example = ''42'' \<and> error_message injected_example = []"
    using main p sup by simp
  have c: "fst (createTask injected_example orc0) = Inr ''x'' \<and>
           completeTask ''x'' (workers (snd (createTask injected_example orc0)) ! 0)
           = (True,
              (new_Worker 0 4)
                \<lparr>task_queue := task_queue (new_Worker 0 4) @ [injected_example],
                 task_storage :=
                   AList.update ''x'' (injected_example\<lparr>status := COMPLETED\<rparr>)
                     (task_storage (new_Worker 0 4)),
                 stats := (stats (new_Worker 0 4))
                   \<lparr>tasks_completed := tasks_completed (stats (new_Worker 0 4)) + 1\<rparr>\<rparr>)"
    using main hyp unfolding i0 injected_example_fields(1) by blast
  show ?thesis
    unfolding orc0_def [symmetric]
    using p sup f c new_TaskOrchestrator_example
    by (simp add: injected_example_fields new_Worker_def orc0_def stringToTaskStatus_def)
qed

section \<open>Round-robin distribution\<close>











section \<open>The invariants of a worker\<close>































section \<open>The steps of a worker\<close>

text \<open>The steps put together give the functions of the worker back.\<close>

lemma addTask_two_sections: "addTask task w = storeTask task (enqueueTask task w)"
  by (simp add: addTask_def storeTask_def enqueueTask_def)

lemma finishProcessing_two_parts:
  "finishProcessing task w =
     countOutcome (fst (storeOutcome task w)) (snd (storeOutcome task w))"
  by (simp add: finishProcessing_def storeOutcome_def countOutcome_def Let_def split: sum.splits)

lemma thread_step_processTaskLoop:
  assumes "task_queue w \<noteq> []"
  shows "\<exists>j1 w1 j2 w2 j3 w3.
           thread_step Idle w = Some (j1, w1) \<and> thread_step j1 w1 = Some (j2, w2) \<and>
           thread_step j2 w2 = Some (j3, w3) \<and>
           thread_step j3 w3 = Some (Idle, processTaskLoop w)"
proof -
  obtain t q where q: "task_queue w = t # q" using assms by (cases "task_queue w") auto
  define w1 where "w1 = w\<lparr>task_queue := q\<rparr>"
  define t1 where "t1 = fst (markProcessing t w1)"
  define w2 where "w2 = snd (markProcessing t w1)"
  define j3 where "j3 = fst (storeOutcome t1 w2)"
  define w3 where "w3 = snd (storeOutcome t1 w2)"
  have 1: "thread_step Idle w = Some (Popped t, w1)" by (simp add: thread_step_def q w1_def)
  have 2: "thread_step (Popped t) w1 = Some (Marked t1, w2)"
    by (simp add: thread_step_def t1_def w2_def split_beta)
  have 3: "thread_step (Marked t1) w2 = Some (j3, w3)"
    by (simp add: thread_step_def j3_def w3_def)
  have j3: "(\<exists>u. j3 = Stored_result u) \<or> (\<exists>u. j3 = Stored_failure u)"
    by (auto simp: j3_def storeOutcome_def Let_def split: sum.splits)
  have "processTaskLoop w = countOutcome j3 w3"
    by (simp add: processTaskLoop_def q processTask_def split_beta finishProcessing_two_parts
        j3_def w3_def t1_def w2_def w1_def)
  then have 4: "thread_step j3 w3 = Some (Idle, processTaskLoop w)"
    using j3 by (auto simp: thread_step_def)
  show ?thesis using 1 2 3 4 by blast
qed





lemma advances_refl: "advances a a"
  by (simp add: advances_def)


















section \<open>The invariants of the system\<close>





text \<open>
  The steps and the functions of the orchestrator: a \<open>Create\<close> step with
  the \<open>Store\<close> step of the same task leaves the orchestrator as
  \<open>createTask\<close> does, and a rejected \<open>Create\<close> changes nothing, as
  \<open>createTask\<close> does when it throws.
\<close>

lemma Create_Store_createTask:
  assumes "validateTaskInput t" "workers (orch s) \<noteq> []"
    "length (adding s) = length (workers (orch s))"
  shows "\<exists>s1 s2.
           apply_action (Create t) s = Some s1 \<and>
           apply_action (Store (unat (current_worker (orch s)) mod length (workers (orch s))) t) s1
             = Some s2 \<and>
           orch s2 = snd (createTask t (orch s)) \<and>
           fst (createTask t (orch s)) = Inr (task_id t)"
proof -
  define i where "i = unat (current_worker (orch s)) mod length (workers (orch s))"
  define orc1 where "orc1 = (orch s)\<lparr>current_worker := current_worker (orch s) + 1\<rparr>"
  define s1 where
    "s1 = s\<lparr>orch := set_worker i (enqueueTask t (workers (orch s) ! i)) orc1,
              adding := (adding s)[i := adding s ! i @ [t]]\<rparr>"
  have i: "i < length (workers (orch s))" unfolding i_def using assms(2) by simp
  have 1: "apply_action (Create t) s = Some s1"
    using assms(1,2) by (simp add: apply_action_def selectWorker_def s1_def orc1_def i_def)
  have g: "i < length (workers (orch s1))" "i < length (adding s1)" "t \<in> set (adding s1 ! i)"
    using i assms(3) by (simp_all add: s1_def set_worker_def orc1_def)
  have 2: "apply_action (Store i t) s1 =
             Some (s1\<lparr>orch := set_worker i (storeTask t (workers (orch s1) ! i)) (orch s1),
                       adding := (adding s1)[i := remove1 t (adding s1 ! i)]\<rparr>)"
    using g by (simp add: apply_action_def)
  have 3: "set_worker i (storeTask t (workers (orch s1) ! i)) (orch s1)
             = snd (createTask t (orch s))"
    using i createTask_valid [OF assms(1,2)]
    by (simp add: s1_def set_worker_def orc1_def i_def addTask_two_sections)
  have 4: "fst (createTask t (orch s)) = Inr (task_id t)"
    using createTask_valid [OF assms(1,2)] by simp
  show ?thesis unfolding i_def [symmetric] using 1 2 3 4 by simp
qed

lemma Create_rejected:
  assumes "\<not> (validateTaskInput t \<and> workers (orch s) \<noteq> [])"
  shows "apply_action (Create t) s = Some s \<and> snd (createTask t (orch s)) = orch s \<and>
         isl (fst (createTask t (orch s)))"
  using assms by (auto simp: apply_action_def createTask_def distributeTask_def)



















section \<open>The statistics balance\<close>








section \<open>The status only advances\<close>




end
